theory Spec2Isabelle
  imports Main "HOL-Library.Word" "HOL-Library.Multiset"
begin

unbundle bit_operations_syntax

section \<open>Machine types\<close>

text \<open>
  The library targets the ESP32 Arduino core: \<open>uint8_t\<close> and \<open>uint16_t\<close> are 8 and 16
  bit words, \<open>int\<close> and \<open>unsigned long\<close> are 32 bit words. Integer promotion is
  written out: an operand narrower than \<open>int\<close> is widened with \<open>ucast\<close> before an
  arithmetic or bitwise operator is applied, and the result is narrowed with \<open>ucast\<close>
  where the source stores it in a narrower variable.
\<close>

type_synonym uint8_t = "8 word"
type_synonym uint16_t = "16 word"
type_synonym c_int = "32 word"
type_synonym unsigned_long = "32 word"

section \<open>The frame buffer\<close>

text \<open>
  \<open>uint8_t LinMessage[8 + 1 + 4]\<close> is a list of 13 bytes. An access with an index
  outside 0..12 is undefined behaviour in the source; the model makes it a fault that
  records the offending index.
\<close>

datatype fault = OutOfBounds int

definition andThen :: "fault + 'a \<Rightarrow> ('a \<Rightarrow> fault + 'b) \<Rightarrow> fault + 'b" where
  "andThen m f = (case m of Inl e \<Rightarrow> Inl e | Inr x \<Rightarrow> f x)"

lemma andThen_cong [fundef_cong]:
  "m = m' \<Longrightarrow> (\<And>x. m' = Inr x \<Longrightarrow> f x = f' x) \<Longrightarrow> andThen m f = andThen m' f'"
  by (simp add: andThen_def split: sum.split)

definition LinMessage_at :: "uint8_t list \<Rightarrow> int \<Rightarrow> fault + uint8_t" where
  "LinMessage_at msg i =
     (if 0 \<le> i \<and> i < 8 + 1 + 4 then Inr (msg ! nat i) else Inl (OutOfBounds i))"

definition LinMessage_store :: "uint8_t list \<Rightarrow> int \<Rightarrow> uint8_t \<Rightarrow> fault + uint8_t list" where
  "LinMessage_store msg i v =
     (if 0 \<le> i \<and> i < 8 + 1 + 4 then Inr (msg[nat i := v]) else Inl (OutOfBounds i))"

section \<open>Protected identifier and checksum\<close>

text \<open>Arduino's macro \<open>bitRead(value, bit)\<close> is \<open>(((value) >> (bit)) & 0x01)\<close>.\<close>

definition bitRead :: "uint8_t \<Rightarrow> nat \<Rightarrow> c_int" where
  "bitRead v b = drop_bit b (ucast v) AND 0x01"

definition getProtectedID :: "uint8_t \<Rightarrow> uint8_t" where
  "getProtectedID FrameID =
     (let p0 = (ucast (bitRead FrameID 0 XOR bitRead FrameID 1 XOR
                       bitRead FrameID 2 XOR bitRead FrameID 4) :: uint8_t);
          p1 = (ucast (NOT (bitRead FrameID 1 XOR bitRead FrameID 3 XOR
                            bitRead FrameID 4 XOR bitRead FrameID 5)) :: uint8_t)
      in ucast (push_bit 7 (ucast p1 :: c_int) OR push_bit 6 (ucast p0 :: c_int) OR
                (ucast FrameID AND 0x3F)))"

text \<open>
  \<open>while (dataLen-- > 0) sum += LinMessage[dataLen];\<close> The counter is tested, then
  decremented, then used as the index.
\<close>

function sum_bytes :: "uint8_t list \<Rightarrow> uint8_t \<Rightarrow> uint16_t \<Rightarrow> fault + uint16_t" where
  "sum_bytes msg dataLen sum16 =
     (if dataLen > 0
      then andThen (LinMessage_at msg (uint (dataLen - 1)))
             (\<lambda>b. sum_bytes msg (dataLen - 1) (sum16 + ucast b))
      else Inr sum16)"
  by pat_completeness auto
termination
  by (relation "measure (\<lambda>(msg, dataLen, sum16). unat dataLen)")
     (simp_all add: unat_minus_one word_gt_0 unat_gt_0)

text \<open>\<open>while (sum >> 8) sum = (sum & 0xFF) + (sum >> 8);\<close>\<close>

function fold_carry :: "uint16_t \<Rightarrow> uint16_t" where
  "fold_carry sum16 =
     (if drop_bit 8 sum16 \<noteq> 0
      then fold_carry ((sum16 AND 0xFF) + drop_bit 8 sum16)
      else sum16)"
  by pat_completeness auto
termination
proof (relation "measure unat")
  show "wf (measure (unat :: uint16_t \<Rightarrow> nat))"
    by simp
next
  fix sum16 :: uint16_t
  assume carry: "drop_bit 8 sum16 \<noteq> 0"
  have mask8: "(0xFF :: uint16_t) = mask 8"
    by (simp add: mask_eq_exp_minus_1)
  have lo: "unat (sum16 AND 0xFF) = unat sum16 mod 256"
    unfolding mask8 take_bit_eq_mask [symmetric] unsigned_take_bit_eq
    by (simp add: take_bit_eq_mod)
  have hi: "unat (drop_bit 8 sum16) = unat sum16 div 256"
    unfolding unat_drop_bit_eq by (simp add: drop_bit_eq_div)
  from carry have "unat (drop_bit 8 sum16) \<noteq> 0"
    by (simp add: unat_eq_0)
  then have pos: "unat sum16 div 256 \<noteq> 0"
    by (simp add: hi)
  have "unat ((sum16 AND 0xFF) + drop_bit 8 sum16)
          \<le> unat (sum16 AND 0xFF) + unat (drop_bit 8 sum16)"
    by (simp add: unat_word_ariths)
  then have "unat ((sum16 AND 0xFF) + drop_bit 8 sum16)
          \<le> unat sum16 mod 256 + unat sum16 div 256"
    by (simp only: lo hi)
  moreover have "unat sum16 = 256 * (unat sum16 div 256) + unat sum16 mod 256"
    by simp
  with pos have "unat sum16 mod 256 + unat sum16 div 256 < unat sum16"
    by linarith
  ultimately have less: "unat ((sum16 AND 0xFF) + drop_bit 8 sum16) < unat sum16"
    by (rule le_less_trans)
  show "((sum16 AND 0xFF) + drop_bit 8 sum16, sum16) \<in> measure unat"
    by (simp only: in_measure less)
qed

declare sum_bytes.simps [simp del]
declare fold_carry.simps [simp del]

definition getChecksum :: "uint8_t list \<Rightarrow> uint8_t \<Rightarrow> uint8_t \<Rightarrow> fault + uint8_t" where
  "getChecksum msg ProtectedID dataLen =
     (let sum16 = (ucast ProtectedID :: uint16_t);
          sum16 = (if (sum16 AND 0x3F) \<ge> 0x3C then 0x00 else sum16)
      in andThen (sum_bytes msg dataLen sum16)
           (\<lambda>sum16. Inr (ucast (NOT (ucast (fold_carry sum16) :: c_int)))))"

text \<open>
  The validity test of \<open>listenBus\<close>,
  \<open>0xFF == (uint8_t)(Checksum + ~getChecksum(ProtectedID, bytes_received - 1))\<close>,
  on the received checksum byte and the recomputed one.
\<close>

definition checksum_matches :: "uint8_t \<Rightarrow> uint8_t \<Rightarrow> bool" where
  "checksum_matches Checksum computed \<longleftrightarrow>
     (0xFF :: c_int) = ucast (ucast (ucast Checksum + NOT (ucast computed :: c_int)) :: uint8_t)"

text \<open>
  Lines 138 to 140 of \<open>listenBus\<close>: the last received byte is the checksum, the bytes
  before it are the data.
\<close>

definition verify_received :: "uint8_t list \<Rightarrow> uint8_t \<Rightarrow> int \<Rightarrow> fault + bool" where
  "verify_received msg ProtectedID bytes_received =
     andThen (LinMessage_at msg (bytes_received - 1)) (\<lambda>Checksum.
     andThen (getChecksum msg ProtectedID (word_of_int (bytes_received - 1))) (\<lambda>computed.
     Inr (checksum_matches Checksum computed)))"

section \<open>The session object, the transport and the environment\<close>

text \<open>
  \<open>class Lin_Interface : protected HardwareSerial\<close>. The record holds the fields of
  the class and, with them, what the inherited transport and the Arduino runtime
  contribute to a call:
  \<^item> \<open>calls\<close>, the \<open>HardwareSerial\<close> member calls made so far, in order;
  \<^item> \<open>rx\<close>, the bytes that reach the receiver and are not read yet, in arrival order,
    each with the time in milliseconds at which it becomes available;
  \<^item> \<open>clock\<close>, the time in milliseconds since start; \<open>millis()\<close> returns it as an
    \<open>unsigned long\<close>, so it wraps around at \<open>2 ^ 32\<close>;
  \<^item> \<open>console\<close>, what has been printed on \<open>Serial\<close>, as format string and
    arguments.
  Time advances in \<open>delay\<close> and in the polling loop at the start of \<open>listenBus\<close>;
  the other calls take no time. \<open>int8_t\<close> is read as a signed value with \<open>sint\<close>.
  The counter \<open>bytes_received\<close> of the source is an \<open>int\<close> between -4 and 13 and
  is modelled by a mathematical integer.
\<close>

type_synonym int8_t = "8 word"

datatype call =
    Begin unsigned_long "(int8_t \<times> int8_t) option"
  | End
  | Flush
  | UpdateBaudRate unsigned_long
  | Write uint8_t
  | Read

datatype printed = Printf string "int list" | Print string | Println

record Lin_Interface =
  verboseMode :: c_int
  baud :: unsigned_long
  rxPin :: int8_t
  txPin :: int8_t
  LinMessage :: "uint8_t list"
  LinMessageID :: uint8_t
  LinMessageSize :: uint8_t
  calls :: "call list"
  rx :: "(nat \<times> uint8_t) list"
  clock :: nat
  console :: "printed list"

definition HardwareSerial_available :: "Lin_Interface \<Rightarrow> bool" where
  "HardwareSerial_available s = (case rx s of [] \<Rightarrow> False | (t, b) # rest \<Rightarrow> t \<le> clock s)"

definition HardwareSerial_read :: "Lin_Interface \<Rightarrow> int \<times> Lin_Interface" where
  "HardwareSerial_read s =
     (if HardwareSerial_available s
      then (uint (snd (hd (rx s))), s\<lparr>calls := calls s @ [Read], rx := tl (rx s)\<rparr>)
      else (- 1, s\<lparr>calls := calls s @ [Read]\<rparr>))"

definition HardwareSerial_write :: "uint8_t \<Rightarrow> Lin_Interface \<Rightarrow> nat \<times> Lin_Interface" where
  "HardwareSerial_write b s = (1, s\<lparr>calls := calls s @ [Write b]\<rparr>)"

definition HardwareSerial_flush :: "Lin_Interface \<Rightarrow> Lin_Interface" where
  "HardwareSerial_flush s = s\<lparr>calls := calls s @ [Flush]\<rparr>"

definition HardwareSerial_updateBaudRate :: "unsigned_long \<Rightarrow> Lin_Interface \<Rightarrow> Lin_Interface" where
  "HardwareSerial_updateBaudRate r s = s\<lparr>calls := calls s @ [UpdateBaudRate r]\<rparr>"

definition HardwareSerial_begin ::
  "unsigned_long \<Rightarrow> (int8_t \<times> int8_t) option \<Rightarrow> Lin_Interface \<Rightarrow> Lin_Interface" where
  "HardwareSerial_begin r pins s = s\<lparr>calls := calls s @ [Begin r pins]\<rparr>"

definition HardwareSerial_end :: "Lin_Interface \<Rightarrow> Lin_Interface" where
  "HardwareSerial_end s = s\<lparr>calls := calls s @ [End]\<rparr>"

definition millis :: "Lin_Interface \<Rightarrow> unsigned_long" where
  "millis s = of_nat (clock s)"

definition delay :: "nat \<Rightarrow> Lin_Interface \<Rightarrow> Lin_Interface" where
  "delay ms s = s\<lparr>clock := clock s + ms\<rparr>"

definition Serial_printf :: "string \<Rightarrow> int list \<Rightarrow> Lin_Interface \<Rightarrow> Lin_Interface" where
  "Serial_printf fmt args s = s\<lparr>console := console s @ [Printf fmt args]\<rparr>"

definition Serial_print :: "string \<Rightarrow> Lin_Interface \<Rightarrow> Lin_Interface" where
  "Serial_print str s = s\<lparr>console := console s @ [Print str]\<rparr>"

definition Serial_println :: "Lin_Interface \<Rightarrow> Lin_Interface" where
  "Serial_println s = s\<lparr>console := console s @ [Println]\<rparr>"

text \<open>The value of \<open>SERIAL_8N1\<close> in the ESP32 Arduino core.\<close>

definition SERIAL_8N1 :: int where
  "SERIAL_8N1 = 0x800001c"

definition setupSerial :: "Lin_Interface \<Rightarrow> Lin_Interface" where
  "setupSerial s =
     (let s = Serial_printf ''Serial settings to be applied: %d, %d, %d, %d\<newline>''
                [uint (baud s), SERIAL_8N1, sint (rxPin s), sint (txPin s)] s;
          s = (if sint (rxPin s) < 0 \<and> sint (txPin s) < 0
               then HardwareSerial_begin (baud s) None s
               else Serial_printf ''Serial settings: %d, %d, %d, %d\<newline>''
                      [uint (baud s), SERIAL_8N1, sint (rxPin s), sint (txPin s)]
                      (HardwareSerial_begin (baud s) (Some (rxPin s, txPin s)) s))
      in delay 20 s)"

definition writeBreak :: "Lin_Interface \<Rightarrow> nat \<times> Lin_Interface" where
  "writeBreak s =
     (let s = HardwareSerial_flush s;
          s = HardwareSerial_updateBaudRate (drop_bit 1 (baud s)) s;
          (ret, s) = HardwareSerial_write 0x00 s;
          s = HardwareSerial_flush s;
          s = HardwareSerial_updateBaudRate (baud s) s
      in (ret, s))"

definition startTransmission :: "uint8_t \<Rightarrow> Lin_Interface \<Rightarrow> Lin_Interface" where
  "startTransmission ProtectedID s =
     (let s = setupSerial s;
          s = snd (writeBreak s);
          s = snd (HardwareSerial_write 0x55 s);
          s = snd (HardwareSerial_write ProtectedID s)
      in s)"


text \<open>
  \<open>listenBus\<close>, lines 46 to 51:
  \<open>while (!HardwareSerial::available() && !timedOut) timedOut = (timeoutAt < millis());\<close>
  The loop polls many times within a millisecond; the polls of one millisecond see the
  same \<open>available()\<close> and \<open>millis()\<close> and are merged, so the clock advances by one
  when a poll leaves the loop condition true. Nothing bounds the loop from the outside:
  it is a partial function, and \<open>None\<close> means that it never returns.
\<close>

partial_function (option) wait_for_data ::
  "unsigned_long \<Rightarrow> bool \<Rightarrow> Lin_Interface \<Rightarrow> (bool \<times> Lin_Interface) option" where
  "wait_for_data timeoutAt timedOut s =
     (if \<not> HardwareSerial_available s \<and> \<not> timedOut
      then (let timedOut = (timeoutAt < millis s)
            in wait_for_data timeoutAt timedOut (if timedOut then s else s\<lparr>clock := clock s + 1\<rparr>))
      else Some (timedOut, s))"

declare wait_for_data.simps [code]

text \<open>
  The body of the \<open>switch\<close> in the receive loop of \<open>listenBus\<close> (lines 62 to 101),
  for one byte: the counter (-4 no header, -3 break seen, -2 sync seen, 0 and above the
  number of stored bytes), the captured ProtectedID and the object.
\<close>

definition receive_byte ::
  "int \<Rightarrow> uint8_t \<Rightarrow> Lin_Interface \<Rightarrow> fault + int \<times> uint8_t \<times> Lin_Interface" where
  "receive_byte bytes_received ProtectedID s =
     (if bytes_received = - 4 \<or> bytes_received = - 3 \<or> bytes_received = - 2 \<or> bytes_received = - 1
      then
        (let (r, s) = HardwareSerial_read s;
             buffer = (word_of_int r :: uint8_t)
         in if buffer = 0x00 then Inr (- 3, ProtectedID, s)
            else if buffer = 0x55 \<and> bytes_received = - 3 then Inr (- 2, ProtectedID, s)
            else if buffer \<noteq> 0x00 \<and> bytes_received = - 3 then Inr (- 4, ProtectedID, s)
            else if bytes_received = - 2 then Inr (0, buffer, s)
            else Inr (- 4, ProtectedID, s))
      else
        (let (r, s) = HardwareSerial_read s
         in andThen (LinMessage_store (LinMessage s) bytes_received (word_of_int r))
              (\<lambda>msg. Inr (bytes_received + 1, ProtectedID, s\<lparr>LinMessage := msg\<rparr>))))"

text \<open>
  The receive loop (lines 55 to 104): it ends when nothing is available, 2 ms after the
  last byte at the latest, or when nine bytes are stored.
\<close>

function receive_loop ::
  "int \<Rightarrow> uint8_t \<Rightarrow> Lin_Interface \<Rightarrow> fault + int \<times> uint8_t \<times> Lin_Interface" where
  "receive_loop bytes_received ProtectedID s =
     (if HardwareSerial_available s
      then if bytes_received \<ge> 8 + 1
           then Inr (bytes_received, ProtectedID, s)
           else andThen (receive_byte bytes_received ProtectedID s)
                  (\<lambda>(bytes_received, ProtectedID, s).
                     receive_loop bytes_received ProtectedID
                       (if \<not> HardwareSerial_available s then delay 2 s else s))
      else Inr (bytes_received, ProtectedID, s))"
  by pat_completeness auto
termination
proof (relation "measure (\<lambda>(bytes_received, ProtectedID, s). length (rx s))")
  show "wf (measure (\<lambda>(bytes_received, ProtectedID, s). length (rx s)))"
    by simp
next
  fix bytes_received :: int and ProtectedID :: uint8_t and s :: Lin_Interface
    and x :: "int \<times> uint8_t \<times> Lin_Interface" and br' pid' rest s'
  assume avail: "HardwareSerial_available s"
    and step: "receive_byte bytes_received ProtectedID s = Inr x"
    and x: "(br', rest) = x" "(pid', s') = rest"
  from avail have nonempty: "rx s \<noteq> []"
    by (auto simp add: HardwareSerial_available_def)
  have "rx (snd (HardwareSerial_read s)) = tl (rx s)"
    using avail by (simp add: HardwareSerial_read_def)
  with step x have "rx s' = tl (rx s)"
    by (auto simp add: receive_byte_def Let_def andThen_def LinMessage_store_def
             split: if_splits prod.splits)
  with nonempty have "length (rx s') < length (rx s)"
    by (cases "rx s") simp_all
  then show "((br', pid', if \<not> HardwareSerial_available s' then delay 2 s' else s'),
              (bytes_received, ProtectedID, s))
               \<in> measure (\<lambda>(bytes_received, ProtectedID, s). length (rx s))"
    by (simp add: delay_def)
qed

text \<open>Lines 124 to 133: bytes still available are read and dropped.\<close>

function discard_rest :: "Lin_Interface \<Rightarrow> Lin_Interface" where
  "discard_rest s =
     (if HardwareSerial_available s then discard_rest (snd (HardwareSerial_read s)) else s)"
  by pat_completeness auto
termination
proof (relation "measure (\<lambda>s. length (rx s))")
  show "wf (measure (\<lambda>s. length (rx s)))"
    by simp
next
  fix s :: Lin_Interface
  assume avail: "HardwareSerial_available s"
  then have "rx s \<noteq> []"
    by (auto simp add: HardwareSerial_available_def)
  then have "length (tl (rx s)) < length (rx s)"
    by (cases "rx s") simp_all
  then show "(snd (HardwareSerial_read s), s) \<in> measure (\<lambda>s. length (rx s))"
    using avail by (simp add: HardwareSerial_read_def)
qed

declare receive_loop.simps [simp del]
declare discard_rest.simps [simp del]


text \<open>The loop that prints the received bytes (lines 165 to 170).\<close>

function print_received :: "int \<Rightarrow> int \<Rightarrow> Lin_Interface \<Rightarrow> fault + Lin_Interface" where
  "print_received i bytes_received s =
     (if i < 8
      then if i > bytes_received
           then Inr s
           else andThen (LinMessage_at (LinMessage s) i)
                  (\<lambda>b. print_received (i + 1) bytes_received (Serial_printf ''%02X '' [uint b] s))
      else Inr s)"
  by pat_completeness auto
termination
  by (relation "measure (\<lambda>(i, bytes_received, s). nat (8 - i))") simp_all

declare print_received.simps [simp del]

text \<open>
  Lines 106 to 120 are compiled under \<open>#ifdef LINSIMULATION\<close> only. The macro is
  defined nowhere in the repository; it is a parameter here, \<open>False\<close> for the library
  as it is built.
\<close>

definition simulated_frame ::
  "bool \<Rightarrow> bool \<Rightarrow> int \<Rightarrow> uint8_t \<Rightarrow> Lin_Interface
     \<Rightarrow> fault + bool \<times> int \<times> uint8_t \<times> Lin_Interface" where
  "simulated_frame LINSIMULATION timedOut bytes_received ProtectedID s =
     (if LINSIMULATION \<and> timedOut
      then
        (let buf = [0xAB, 0x84, 0x1E, 0xF4, 0x2E, 0x84, 0x7A, 0x55, 0x00, 0x00, 0x00, 0x00];
             Id = 0x22;
             s = s\<lparr>LinMessage := buf @ drop 12 (LinMessage s)\<rparr>;
             s = s\<lparr>LinMessageID := Id\<rparr>;
             s = s\<lparr>LinMessageSize := 9\<rparr>;
             bytes_received = 9;
             ProtectedID = Id
         in andThen (getChecksum (LinMessage s) Id (word_of_int (bytes_received - 1))) (\<lambda>c.
            andThen (LinMessage_store (LinMessage s) 8 c) (\<lambda>msg.
            Inr (False, bytes_received, ProtectedID, s\<lparr>LinMessage := msg\<rparr>))))
      else Inr (timedOut, bytes_received, ProtectedID, s))"

text \<open>The diagnostic output at the end of \<open>listenBus\<close> (lines 152 to 185).\<close>

definition listenBus_report ::
  "bool \<Rightarrow> int \<Rightarrow> uint8_t \<Rightarrow> bool \<Rightarrow> Lin_Interface \<Rightarrow> fault + Lin_Interface" where
  "listenBus_report timedOut bytes_received ProtectedID ChecksumValid s =
     (if sint (verboseMode s) > 0
      then if timedOut
           then Inr (Serial_printf ''listenBus timed out\<newline>'' [] s)
           else if bytes_received < 0
           then Inr (Serial_printf ''no valid 0x00 0x55 PID header detected\<newline>'' [] s)
           else
             (let s = Serial_printf ''00 55 %02X (%02X), ''
                        [uint (ProtectedID AND 0x3F), uint ProtectedID] s
              in andThen (print_received 0 bytes_received s) (\<lambda>s.
                 if bytes_received > 1
                 then andThen (LinMessage_at (LinMessage s) (bytes_received - 1)) (\<lambda>b.
                        let s = Serial_printf ''|%02X '' [uint b] s;
                            s = (if \<not> ChecksumValid then Serial_printf ''Checksum failed'' [] s else s)
                        in Inr (Serial_printf ''\<newline>'' [] s))
                 else Inr (Serial_printf ''no repsonse\<newline>'' [] s)))
      else Inr s)"

text \<open>\<open>listenBus\<close> from line 53 on, once the polling loop has ended.\<close>

definition listenBus_received ::
  "bool \<Rightarrow> bool \<Rightarrow> Lin_Interface \<Rightarrow> fault + bool \<times> Lin_Interface" where
  "listenBus_received LINSIMULATION timedOut s =
     andThen (receive_loop (- 4) 0x00 s) (\<lambda>(bytes_received, ProtectedID, s).
     andThen (simulated_frame LINSIMULATION timedOut bytes_received ProtectedID s)
       (\<lambda>(timedOut, bytes_received, ProtectedID, s).
     let s = discard_rest s
     in andThen
          (if bytes_received > 0
           then andThen (verify_received (LinMessage s) ProtectedID bytes_received) (\<lambda>ChecksumValid.
                  Inr (ChecksumValid,
                       s\<lparr>LinMessageSize := word_of_int bytes_received,
                         LinMessageID := ProtectedID AND 0x3F\<rparr>))
           else Inr (False, s\<lparr>LinMessageSize := 0, LinMessageID := ProtectedID AND 0x3F\<rparr>))
          (\<lambda>(ChecksumValid, s).
             andThen (listenBus_report timedOut bytes_received ProtectedID ChecksumValid s) (\<lambda>s.
             Inr (ChecksumValid, s)))))"

definition listenBus :: "bool \<Rightarrow> Lin_Interface \<Rightarrow> (fault + bool \<times> Lin_Interface) option" where
  "listenBus LINSIMULATION s =
     (let timeout = 500;
          timeoutAt = millis s + timeout;
          s = HardwareSerial_flush s
      in case wait_for_data timeoutAt False s of
           None \<Rightarrow> None
         | Some (timedOut, s) \<Rightarrow> Some (listenBus_received LINSIMULATION timedOut s))"

definition readFrame ::
  "bool \<Rightarrow> uint8_t \<Rightarrow> Lin_Interface \<Rightarrow> (fault + bool \<times> Lin_Interface) option" where
  "readFrame LINSIMULATION FrameID s =
     (let ProtectedID = getProtectedID FrameID;
          s = startTransmission ProtectedID s;
          s = HardwareSerial_flush s
      in case listenBus LINSIMULATION s of
           None \<Rightarrow> None
         | Some (Inl f) \<Rightarrow> Some (Inl f)
         | Some (Inr (ChecksumValid, s)) \<Rightarrow>
             Some (Inr (ChecksumValid, delay 20 (HardwareSerial_end s))))"

text \<open>
  \<open>writeFrame\<close>, lines 220 to 223:
  \<open>for (int i = 0; i < dataLen; ++i) HardwareSerial::write(LinMessage[i]);\<close>
\<close>

function write_data :: "int \<Rightarrow> uint8_t \<Rightarrow> Lin_Interface \<Rightarrow> fault + Lin_Interface" where
  "write_data i dataLen s =
     (if i < uint dataLen
      then andThen (LinMessage_at (LinMessage s) i)
             (\<lambda>b. write_data (i + 1) dataLen (snd (HardwareSerial_write b s)))
      else Inr s)"
  by pat_completeness auto
termination
  by (relation "measure (\<lambda>(i, dataLen, s). nat (uint dataLen - i))") simp_all

text \<open>
  \<open>writeFrame\<close>, lines 252 to 263: the echoed bytes are stored from index 0 on, at
  most 13 of them.
\<close>

definition store_echo :: "int \<Rightarrow> Lin_Interface \<Rightarrow> fault + Lin_Interface" where
  "store_echo bytes_received s =
     (let (r, s) = HardwareSerial_read s
      in andThen (LinMessage_store (LinMessage s) bytes_received (word_of_int r))
           (\<lambda>msg. Inr (s\<lparr>LinMessage := msg\<rparr>)))"

function read_echo :: "int \<Rightarrow> Lin_Interface \<Rightarrow> fault + bool \<times> int \<times> Lin_Interface" where
  "read_echo bytes_received s =
     (if HardwareSerial_available s
      then if bytes_received \<ge> 8 + 1 + 4
           then Inr (True, bytes_received, s)
           else andThen (store_echo bytes_received s) (\<lambda>s. read_echo (bytes_received + 1) s)
      else Inr (False, bytes_received, s))"
  by pat_completeness auto
termination
proof (relation "measure (\<lambda>(bytes_received, s). length (rx s))")
  show "wf (measure (\<lambda>(bytes_received, s). length (rx s)))"
    by simp
next
  fix bytes_received :: int and s s' :: Lin_Interface
  assume avail: "HardwareSerial_available s"
    and step: "store_echo bytes_received s = Inr s'"
  from avail have nonempty: "rx s \<noteq> []"
    by (auto simp add: HardwareSerial_available_def)
  have "rx (snd (HardwareSerial_read s)) = tl (rx s)"
    using avail by (simp add: HardwareSerial_read_def)
  with step have "rx s' = tl (rx s)"
    by (auto simp add: store_echo_def Let_def andThen_def LinMessage_store_def
             split: if_splits prod.splits)
  with nonempty have "length (rx s') < length (rx s)"
    by (cases "rx s") simp_all
  then show "((bytes_received + 1, s'), (bytes_received, s))
               \<in> measure (\<lambda>(bytes_received, s). length (rx s))"
    by simp
qed

text \<open>The loop that prints the echoed bytes (lines 277 to 282).\<close>

function print_echo :: "int \<Rightarrow> int \<Rightarrow> Lin_Interface \<Rightarrow> fault + Lin_Interface" where
  "print_echo i bytes_received s =
     (if i < 8 + 1 + 4
      then if i \<ge> bytes_received
           then Inr s
           else andThen (LinMessage_at (LinMessage s) i)
                  (\<lambda>b. print_echo (i + 1) bytes_received (Serial_printf ''%02X '' [uint b] s))
      else Inr s)"
  by pat_completeness auto
termination
  by (relation "measure (\<lambda>(i, bytes_received, s). nat (13 - i))") simp_all

declare write_data.simps [simp del]
declare read_echo.simps [simp del]
declare print_echo.simps [simp del]

definition read_uint8 :: "Lin_Interface \<Rightarrow> uint8_t \<times> Lin_Interface" where
  "read_uint8 s = (let (r, s) = HardwareSerial_read s in (word_of_int r, s))"

text \<open>
  \<open>writeFrame\<close> is written in two parts: lines 215 to 230, which send the frame and
  end with \<open>verboseMode = 1\<close>, and lines 232 to 296, which read the echo back,
  recompute the checksum and print the comparison.
\<close>

definition writeFrame_transmit ::
  "uint8_t \<Rightarrow> uint8_t \<Rightarrow> Lin_Interface \<Rightarrow> fault + uint8_t \<times> uint8_t \<times> Lin_Interface" where
  "writeFrame_transmit FrameID dataLen s =
     (let ProtectedID = getProtectedID FrameID
      in andThen (getChecksum (LinMessage s) ProtectedID dataLen) (\<lambda>cksum.
         let s = startTransmission ProtectedID s
         in andThen (write_data 0 dataLen s) (\<lambda>s.
            let s = snd (HardwareSerial_write cksum s);
                s = delay 10 s;
                s = s\<lparr>verboseMode := 1\<rparr>
            in Inr (ProtectedID, cksum, s))))"

definition writeFrame_echo ::
  "uint8_t \<Rightarrow> uint8_t \<Rightarrow> uint8_t \<Rightarrow> Lin_Interface \<Rightarrow> fault + Lin_Interface" where
  "writeFrame_echo FrameID ProtectedID cksum s =
     (let s = (if HardwareSerial_available s then snd (HardwareSerial_read s) else s);
          (RX_Sync, s) = (if HardwareSerial_available s then read_uint8 s else (0x00, s));
          (RX_ProtectedID, s) = (if HardwareSerial_available s then read_uint8 s else (0x00, s))
      in andThen (read_echo 0 s) (\<lambda>(moreData, bytes_received, s).
         andThen (LinMessage_at (LinMessage s) (bytes_received - 1)) (\<lambda>Checksum_received.
         let bytes_received = bytes_received - 1;
             s = HardwareSerial_flush s;
             s = HardwareSerial_end s
         in andThen (getChecksum (LinMessage s) RX_ProtectedID (word_of_int bytes_received))
              (\<lambda>ChkSumCalc.
                 if sint (verboseMode s) > 0
                 then
                   (let s = Serial_printf '' <<<<<<--- FID %02Xh (%02X)   = %02X|%02X|''
                              [uint FrameID, uint ProtectedID, uint RX_Sync, uint RX_ProtectedID] s
                    in andThen (print_echo 0 bytes_received s) (\<lambda>s.
                       let s = Serial_printf (CHR 0x08 # ''|%02X'') [uint Checksum_received] s;
                           s = (if Checksum_received \<noteq> ChkSumCalc
                                then Serial_printf (CHR 0x08 # '' != ChkSum calc %02Xh| TX %02Xh '')
                                       [uint ChkSumCalc, uint cksum] s
                                else s);
                           s = (if moreData then Serial_print ''more Bytes available'' s else s)
                       in Inr (Serial_println s)))
                 else Inr s))))"

definition writeFrame :: "uint8_t \<Rightarrow> uint8_t \<Rightarrow> Lin_Interface \<Rightarrow> fault + Lin_Interface" where
  "writeFrame FrameID dataLen s =
     andThen (writeFrame_transmit FrameID dataLen s) (\<lambda>(ProtectedID, cksum, s).
       writeFrame_echo FrameID ProtectedID cksum s)"


text \<open>
  A freshly constructed object, with the member initialisers of the header, at a given
  time and with given incoming bytes.
\<close>

definition Lin_Interface_new :: "nat \<Rightarrow> (nat \<times> uint8_t) list \<Rightarrow> Lin_Interface" where
  "Lin_Interface_new now incoming =
     \<lparr>verboseMode = - 1, baud = 19200, rxPin = - 1, txPin = - 1,
      LinMessage = replicate (8 + 1 + 4) 0, LinMessageID = 0, LinMessageSize = 0,
      calls = [], rx = incoming, clock = now, console = []\<rparr>"

text \<open>The public configuration fields of the object, read together.\<close>

definition settings :: "Lin_Interface \<Rightarrow> c_int \<times> unsigned_long \<times> int8_t \<times> int8_t" where
  "settings s = (verboseMode s, baud s, rxPin s, txPin s)"

section \<open>Properties of the protected identifier\<close>

lemma bit_bitRead: "bit (bitRead v b) n \<longleftrightarrow> n = 0 \<and> bit v b"
  by (auto simp add: bitRead_def bit_simps dest: bit_imp_le_length)

lemma mask6: "(0x3F :: 'a::len word) = mask 6"
  by (simp add: mask_eq_exp_minus_1)

lemma bit_getProtectedID:
  "bit (getProtectedID f) n \<longleftrightarrow>
     (if n < 6 then bit f n
      else if n = 6 then (((bit f 0 \<noteq> bit f 1) \<noteq> bit f 2) \<noteq> bit f 4)
      else n = 7 \<and> \<not> (((bit f 1 \<noteq> bit f 3) \<noteq> bit f 4) \<noteq> bit f 5))"
  unfolding getProtectedID_def Let_def mask6
  by (auto simp add: bit_simps bit_bitRead)

lemma getProtectedID_low_bits: "getProtectedID f AND 0x3F = f AND 0x3F"
  unfolding mask6
  by (rule bit_eqI) (simp add: bit_simps bit_getProtectedID)

lemma FrameID_masked: "f \<le> 0x3F \<Longrightarrow> f AND 0x3F = (f :: uint8_t)"
proof -
  assume "f \<le> 0x3F"
  then have "uint f < 2 ^ 6"
    by (simp add: word_le_def)
  then have "f AND mask 6 = f"
    by (simp only: mask_eq_iff)
  then show ?thesis
    by (simp only: mask6)
qed

text \<open>
  C1. For every FrameID in 0..63 the low six bits of \<open>getProtectedID FrameID\<close> are the
  FrameID, bit 6 is the parity P0 (the exclusive or of bits 0, 1, 2 and 4) and bit 7 is
  the parity P1 (the negated exclusive or of bits 1, 3, 4 and 5). Exclusive or of
  booleans is written \<open>\<noteq>\<close>.
\<close>

theorem getProtectedID_parity:
  assumes "FrameID \<le> 0x3F"
  shows "getProtectedID FrameID AND 0x3F = FrameID
       \<and> (bit (getProtectedID FrameID) 6 \<longleftrightarrow>
            (((bit FrameID 0 \<noteq> bit FrameID 1) \<noteq> bit FrameID 2) \<noteq> bit FrameID 4))
       \<and> (bit (getProtectedID FrameID) 7 \<longleftrightarrow>
            \<not> (((bit FrameID 1 \<noteq> bit FrameID 3) \<noteq> bit FrameID 4) \<noteq> bit FrameID 5))"
  using assms
  by (simp add: getProtectedID_low_bits FrameID_masked bit_getProtectedID)

theorem getProtectedID_parity_witness:
  "(0x22 :: uint8_t) \<le> 0x3F \<and> getProtectedID 0x22 = 0xE2 \<and> getProtectedID 0x22 AND 0x3F = 0x22
     \<and> bit (getProtectedID 0x22) 6 \<and> bit (getProtectedID 0x22) 7"
proof -
  have le: "(0x22 :: uint8_t) \<le> 0x3F"
    by simp
  have val: "getProtectedID 0x22 = 0xE2"
    by code_simp
  from getProtectedID_parity [OF le] le val show ?thesis
    by simp
qed

section \<open>Properties of the checksum\<close>

lemma LinMessage_at_inside: "0 \<le> i \<Longrightarrow> i < 13 \<Longrightarrow> LinMessage_at msg i = Inr (msg ! nat i)"
  by (simp add: LinMessage_at_def)

lemma LinMessage_at_outside: "i < 0 \<or> 13 \<le> i \<Longrightarrow> LinMessage_at msg i = Inl (OutOfBounds i)"
  by (auto simp add: LinMessage_at_def)

lemma andThen_Inr [simp]: "andThen (Inr x) f = f x"
  by (simp add: andThen_def)

lemma andThen_Inl [simp]: "andThen (Inl e) f = Inl e"
  by (simp add: andThen_def)

lemma sum_bytes_in_range:
  "length msg = 13 \<Longrightarrow> unat dataLen \<le> 13 \<Longrightarrow>
   sum_bytes msg dataLen sum16 = Inr (sum16 + sum_list (map ucast (take (unat dataLen) msg)))"
proof (induction msg dataLen sum16 rule: sum_bytes.induct)
  case (1 msg dataLen sum16)
  show ?case
  proof (cases "dataLen > 0")
    case False
    then have "dataLen = 0" by (simp add: word_gt_0)
    then show ?thesis by (simp add: sum_bytes.simps)
  next
    case True
    then have pos: "0 < unat dataLen" by (simp add: word_gt_0 unat_gt_0)
    have pred: "unat (dataLen - 1) = unat dataLen - 1"
      using True by (simp add: unat_minus_one word_gt_0)
    have idx: "uint (dataLen - 1) = int (unat dataLen - 1)"
      using pred by (simp add: uint_nat)
    have at: "LinMessage_at msg (uint (dataLen - 1)) = Inr (msg ! (unat dataLen - 1))"
    proof -
      have "int (unat dataLen - 1) < 13"
        using "1.prems" pos by linarith
      then have "LinMessage_at msg (int (unat dataLen - 1)) = Inr (msg ! nat (int (unat dataLen - 1)))"
        by (intro LinMessage_at_inside) simp_all
      then show ?thesis
        by (simp only: idx nat_int)
    qed
    have tk: "take (unat dataLen) msg = take (unat dataLen - 1) msg @ [msg ! (unat dataLen - 1)]"
      using "1.prems" pos take_Suc_conv_app_nth [of "unat dataLen - 1" msg] by simp
    have "sum_bytes msg dataLen sum16 =
            sum_bytes msg (dataLen - 1) (sum16 + ucast (msg ! (unat dataLen - 1)))"
      using True by (subst sum_bytes.simps) (simp add: at)
    also have "\<dots> = Inr (sum16 + ucast (msg ! (unat dataLen - 1))
                         + sum_list (map ucast (take (unat dataLen - 1) msg)))"
      using "1.IH" [OF True at] "1.prems" pred by simp
    finally show ?thesis
      by (simp add: tk ac_simps)
  qed
qed


lemma unat_ucast_8_16: "unat (ucast (x :: uint8_t) :: uint16_t) = unat x"
proof -
  have "unat x < 2 ^ 8"
    using unsigned_less [of x] by simp
  then have "unat x < 2 ^ 16"
    by simp
  then show ?thesis
    by (simp add: unsigned_ucast_eq take_bit_nat_eq_self)
qed

lemma unat_ucast_8_32: "unat (ucast (x :: uint8_t) :: c_int) = unat x"
proof -
  have "unat x < 2 ^ 8"
    using unsigned_less [of x] by simp
  then have "unat x < 2 ^ 32"
    by simp
  then show ?thesis
    by (simp add: unsigned_ucast_eq take_bit_nat_eq_self)
qed

lemma classic_test_byte:
  "(ucast (seed :: uint8_t) :: uint16_t) AND 0x3F \<ge> 0x3C \<longleftrightarrow> seed AND 0x3F \<ge> 0x3C"
proof -
  have "(ucast seed :: uint16_t) AND 0x3F = ucast (seed AND 0x3F)"
    unfolding mask6 by (rule bit_eqI) (auto simp add: bit_simps)
  then show ?thesis
    by (simp add: word_le_nat_alt unat_ucast_8_16)
qed

lemma narrow_complement:
  "(ucast (NOT (ucast (x :: uint16_t) :: c_int)) :: uint8_t) = NOT (ucast x)"
  by (rule bit_eqI) (auto simp add: bit_simps)

lemma getChecksum_in_range:
  assumes "length msg = 13" and "unat dataLen \<le> 13"
  shows "getChecksum msg ProtectedID dataLen =
           Inr (NOT (ucast (fold_carry
                  ((if ProtectedID AND 0x3F \<ge> 0x3C then 0 else ucast ProtectedID)
                   + sum_list (map ucast (take (unat dataLen) msg))))))"
  unfolding getChecksum_def Let_def
  by (simp add: sum_bytes_in_range [OF assms] classic_test_byte narrow_complement)

lemma ucast_add_32_8: "(ucast (a + b :: c_int) :: uint8_t) = ucast a + ucast b"
proof -
  have dvd: "(256 :: nat) dvd 4294967296"
    by simp
  have "unat (ucast (a + b) :: uint8_t) = (unat a + unat b) mod 4294967296 mod 256"
    by (simp add: unsigned_ucast_eq unat_word_ariths take_bit_eq_mod)
  also have "\<dots> = (unat a + unat b) mod 256"
    by (rule mod_mod_cancel [OF dvd])
  also have "\<dots> = unat (ucast a + ucast b :: uint8_t)"
    by (simp add: unsigned_ucast_eq unat_word_ariths take_bit_eq_mod mod_add_eq)
  finally show ?thesis
    by (simp only: word_unat_eq_iff)
qed

lemma checksum_matches_iff: "checksum_matches Checksum computed \<longleftrightarrow> Checksum = computed"
proof -
  have all_ones: "(0xFF :: uint8_t) = - 1"
    by simp
  have "(ucast (ucast Checksum + NOT (ucast computed :: c_int)) :: uint8_t) = Checksum + NOT computed"
  proof -
    have "(ucast (ucast Checksum :: c_int) :: uint8_t) = Checksum"
      by (rule bit_eqI) (auto simp add: bit_simps)
    moreover have "(ucast (NOT (ucast computed :: c_int)) :: uint8_t) = NOT computed"
      by (rule bit_eqI) (auto simp add: bit_simps)
    ultimately show ?thesis
      by (simp only: ucast_add_32_8)
  qed
  moreover have "(0xFF :: c_int) = ucast (x :: uint8_t) \<longleftrightarrow> x = 0xFF" for x
    by (simp add: word_unat_eq_iff unat_ucast_8_32)
  moreover have "Checksum + NOT computed = 0xFF \<longleftrightarrow> Checksum = computed"
    unfolding all_ones by (simp add: not_eq_complement)
  ultimately show ?thesis
    by (simp add: checksum_matches_def)
qed


lemma fold_carry_step:
  "unat ((s AND 0xFF) + drop_bit 8 s :: uint16_t) = unat s mod 256 + unat s div 256"
proof -
  have mask8: "(0xFF :: uint16_t) = mask 8"
    by (simp add: mask_eq_exp_minus_1)
  have lo: "unat (s AND 0xFF) = unat s mod 256"
    unfolding mask8 take_bit_eq_mask [symmetric] unsigned_take_bit_eq
    by (simp add: take_bit_eq_mod)
  have hi: "unat (drop_bit 8 s) = unat s div 256"
    unfolding unat_drop_bit_eq by (simp add: drop_bit_eq_div)
  have "unat s < 65536"
    using unsigned_less [of s] by simp
  then have "unat s mod 256 + unat s div 256 < 65536"
    by linarith
  then show ?thesis
    by (simp add: unat_word_ariths lo hi)
qed

lemma carry_iff: "drop_bit 8 (s :: uint16_t) \<noteq> 0 \<longleftrightarrow> 256 \<le> unat s"
proof -
  have "unat (drop_bit 8 s) = unat s div 256"
    unfolding unat_drop_bit_eq by (simp add: drop_bit_eq_div)
  then have "drop_bit 8 s = 0 \<longleftrightarrow> unat s div 256 = 0"
    by (simp add: unat_eq_0 [symmetric])
  then show ?thesis
    by (simp add: div_eq_0_iff not_less)
qed

lemma fold_carry_residue:
  "unat (fold_carry s) < 256 \<and> unat (fold_carry s) mod 255 = unat s mod 255
     \<and> (unat (fold_carry s) = 0 \<longleftrightarrow> unat s = 0)"
proof (induction s rule: fold_carry.induct)
  case (1 s)
  show ?case
  proof (cases "drop_bit 8 s \<noteq> 0")
    case False
    then have "unat s < 256"
      by (simp add: carry_iff)
    with False show ?thesis
      by (simp add: fold_carry.simps [of s])
  next
    case True
    let ?t = "(s AND 0xFF) + drop_bit 8 s"
    have big: "256 \<le> unat s"
      using True by (simp add: carry_iff)
    have split: "unat s = 256 * (unat s div 256) + unat s mod 256"
      by simp
    have t: "unat ?t = unat s mod 256 + unat s div 256"
      by (rule fold_carry_step)
    have "unat s = 255 * (unat s div 256) + unat ?t"
      using split t by linarith
    then have res: "unat s mod 255 = unat ?t mod 255"
      by (metis mod_mult_self4)
    have nz: "unat ?t \<noteq> 0"
      using big t split by linarith
    have "fold_carry s = fold_carry ?t"
      using True by (subst fold_carry.simps) simp
    with "1.IH" [OF True] res nz big show ?thesis
      by simp
  qed
qed


lemma unat_sum_list_16:
  "sum_list (map unat xs) < 65536 \<Longrightarrow>
   unat (sum_list (map ucast (xs :: uint8_t list)) :: uint16_t) = sum_list (map unat xs)"
proof (induction xs)
  case Nil
  show ?case by simp
next
  case (Cons x xs)
  then have rest: "unat (sum_list (map ucast xs) :: uint16_t) = sum_list (map unat xs)"
    by simp
  have "unat (ucast x :: uint16_t) + unat (sum_list (map ucast xs) :: uint16_t) < 2 ^ LENGTH(16)"
    using Cons.prems by (simp add: rest unat_ucast_8_16)
  then have "unat (ucast x + sum_list (map ucast xs) :: uint16_t)
               = unat (ucast x :: uint16_t) + unat (sum_list (map ucast xs) :: uint16_t)"
    by (simp only: unat_add_lem)
  then show ?case
    by (simp add: rest unat_ucast_8_16)
qed

lemma unat_seeded_sum:
  fixes seed :: uint8_t and xs :: "uint8_t list"
  assumes "unat seed + sum_list (map unat xs) < 65536"
  shows "unat (ucast seed + sum_list (map ucast xs) :: uint16_t) = unat seed + sum_list (map unat xs)"
proof -
  have "sum_list (map unat xs) < 65536"
    using assms by simp
  then have rest: "unat (sum_list (map ucast xs) :: uint16_t) = sum_list (map unat xs)"
    by (rule unat_sum_list_16)
  have "unat (ucast seed :: uint16_t) + unat (sum_list (map ucast xs) :: uint16_t) < 2 ^ LENGTH(16)"
    using assms by (simp add: rest unat_ucast_8_16)
  then have "unat (ucast seed + sum_list (map ucast xs) :: uint16_t)
               = unat (ucast seed :: uint16_t) + unat (sum_list (map ucast xs) :: uint16_t)"
    by (simp only: unat_add_lem)
  then show ?thesis
    by (simp add: rest unat_ucast_8_16)
qed

lemma checksum_byte_0x18:
  assumes "NOT (ucast (fold_carry s) :: uint8_t) = 0x18"
  shows "unat s mod 255 = 231"
proof -
  have small: "unat (fold_carry s) < 256"
    and res: "unat (fold_carry s) mod 255 = unat s mod 255"
    using fold_carry_residue [of s] by simp_all
  have "NOT (NOT (ucast (fold_carry s) :: uint8_t)) = NOT 0x18"
    by (simp only: assms)
  then have "(ucast (fold_carry s) :: uint8_t) = 0xE7"
    by simp
  then have "unat (ucast (fold_carry s) :: uint8_t) = 231"
    by simp
  then have "unat (fold_carry s) = 231"
    using small by (simp add: unsigned_ucast_eq take_bit_nat_eq_self)
  with res show ?thesis
    by simp
qed

text \<open>
  C3. With identifier 0x22 and the payload AB 84 1E F4 2E 84 7A 55 in the buffer, followed
  by the checksum byte 0x18, \<open>getChecksum\<close> over the eight data bytes is 0x18, the
  validity test of \<open>listenBus\<close> over the nine received bytes succeeds, and it fails
  as soon as one of the eight payload bytes is replaced by any other value. The four
  spare bytes of the buffer are arbitrary.
\<close>

theorem checksum_round_trip:
  assumes rest: "length rest = 4"
  shows "getChecksum ([0xAB, 0x84, 0x1E, 0xF4, 0x2E, 0x84, 0x7A, 0x55] @ 0x18 # rest) 0x22 8 = Inr 0x18
       \<and> verify_received ([0xAB, 0x84, 0x1E, 0xF4, 0x2E, 0x84, 0x7A, 0x55] @ 0x18 # rest) 0x22 9 = Inr True
       \<and> (\<forall>i < 8. \<forall>b. b \<noteq> [0xAB, 0x84, 0x1E, 0xF4, 0x2E, 0x84, 0x7A, 0x55] ! i \<longrightarrow>
            verify_received ([0xAB, 0x84, 0x1E, 0xF4, 0x2E, 0x84, 0x7A, 0x55][i := b] @ 0x18 # rest) 0x22 9
              = Inr False)"
proof -
  let ?payload = "[0xAB, 0x84, 0x1E, 0xF4, 0x2E, 0x84, 0x7A, 0x55] :: uint8_t list"
  have fold: "fold_carry 996 = 231"
    by (simp add: fold_carry.simps)
  have enhanced: "\<not> (0x22 :: uint8_t) AND 0x3F \<ge> 0x3C"
    by simp
  have eight: "unat (8 :: uint8_t) \<le> 13" "unat (8 :: uint8_t) = 8"
    by simp_all
  have sum: "getChecksum (xs @ 0x18 # rest) 0x22 8
               = Inr (NOT (ucast (fold_carry (0x22 + sum_list (map ucast xs)))))"
    if "length xs = 8" for xs
    using that rest enhanced by (subst getChecksum_in_range) (simp_all add: eight)
  have c1: "getChecksum (?payload @ 0x18 # rest) 0x22 8 = Inr 0x18"
    by (subst sum) (simp_all add: fold)
  have at: "LinMessage_at (xs @ 0x18 # rest) (9 - 1) = Inr 0x18" if "length xs = 8" for xs
    using that by (simp add: LinMessage_at_def nth_append)
  have ver: "verify_received (xs @ 0x18 # rest) 0x22 9
               = Inr (0x18 = NOT (ucast (fold_carry (0x22 + sum_list (map ucast xs))) :: uint8_t))"
    if "length xs = 8" for xs
    unfolding verify_received_def using that
    by (simp only: at [OF that] andThen_Inr) (simp add: sum [OF that] checksum_matches_iff)
  have c2: "verify_received (?payload @ 0x18 # rest) 0x22 9 = Inr True"
    by (subst ver) (simp_all add: fold)
  have c3: "verify_received (?payload[i := b] @ 0x18 # rest) 0x22 9 = Inr False"
    if i: "i < 8" and b: "b \<noteq> ?payload ! i" for i b
  proof -
    let ?p = "unat (?payload ! i)"
    have "\<forall>x \<in> set ?payload. 0 < unat x \<and> unat x < 255"
      by simp
    moreover have "?payload ! i \<in> set ?payload"
      by (rule nth_mem) (use i in simp)
    ultimately have p: "0 < ?p" "?p < 255"
      by blast+
    have ub: "unat b < 256"
      using unsigned_less [of b] by simp
    have "sum_list (map unat (?payload[i := b])) = sum_list ((map unat ?payload)[i := unat b])"
      by (simp only: map_update)
    also have "\<dots> = sum_list (map unat ?payload) + unat b - (map unat ?payload) ! i"
      by (rule sum_list_update) (use i in simp)
    also have "\<dots> = 962 + unat b - ?p"
    proof -
      have "map unat ?payload ! i = ?p"
        by (rule nth_map) (use i in simp)
      moreover have "sum_list (map unat ?payload) = 962"
        by simp
      ultimately show ?thesis
        by (simp only:)
    qed
    finally have total: "sum_list (map unat (?payload[i := b])) = 962 + unat b - ?p" .
    have nat_sum: "unat (0x22 + sum_list (map ucast (?payload[i := b])) :: uint16_t)
                     = 996 + unat b - ?p"
    proof -
      have "unat (0x22 :: uint8_t) + sum_list (map unat (?payload[i := b])) < 65536"
        unfolding total using ub p by simp
      then have "unat (ucast (0x22 :: uint8_t) + sum_list (map ucast (?payload[i := b])) :: uint16_t)
              = unat (0x22 :: uint8_t) + sum_list (map unat (?payload[i := b]))"
        by (rule unat_seeded_sum)
      moreover have "ucast (0x22 :: uint8_t) = (0x22 :: uint16_t)" "unat (0x22 :: uint8_t) = 34"
        by simp_all
      ultimately have "unat (0x22 + sum_list (map ucast (?payload[i := b])) :: uint16_t)
              = 34 + (962 + unat b - ?p)"
        by (simp only: total)
      then show ?thesis
        using p by linarith
    qed
    have "NOT (ucast (fold_carry (0x22 + sum_list (map ucast (?payload[i := b])))) :: uint8_t) \<noteq> 0x18"
    proof
      assume "NOT (ucast (fold_carry (0x22 + sum_list (map ucast (?payload[i := b])))) :: uint8_t) = 0x18"
      then have r: "(996 + unat b - ?p) mod 255 = 231"
        using checksum_byte_0x18 nat_sum by metis
      define k where "k = 996 + unat b - ?p"
      have bounds: "742 \<le> k" "k \<le> 1250"
        using ub p by (simp_all add: k_def)
      define q where "q = k div 255"
      have "k = 255 * q + k mod 255"
        by (simp add: q_def)
      with r have k: "k = 255 * q + 231"
        by (simp add: k_def)
      have "\<not> 4 \<le> q" "\<not> q \<le> 2"
        using k bounds by linarith+
      then have "q = 3"
        by linarith
      with k have "k = 996"
        by simp
      then have "unat b = ?p"
        using p by (simp add: k_def)
      then have "b = ?payload ! i"
        by (simp only: word_unat_eq_iff)
      with b show False
        by contradiction
    qed
    then have ne: "0x18 \<noteq> NOT (ucast (fold_carry (0x22 + sum_list (map ucast (?payload[i := b])))) :: uint8_t)"
      by (rule not_sym)
    have "length (?payload[i := b]) = length ?payload"
      by (rule length_list_update)
    then have len: "length (?payload[i := b]) = 8"
      by simp
    from ver [OF len] ne show ?thesis
      by (simp only: simp_thms)
  qed
  from c1 c2 c3 show ?thesis
    by blast
qed

theorem checksum_round_trip_witness:
  "length [0, 0, 0, 0 :: uint8_t] = 4 \<and> (0 :: nat) < 8
     \<and> (0x00 :: uint8_t) \<noteq> [0xAB, 0x84, 0x1E, 0xF4, 0x2E, 0x84, 0x7A, 0x55] ! 0
     \<and> verify_received ([0xAB, 0x84, 0x1E, 0xF4, 0x2E, 0x84, 0x7A, 0x55] @ 0x18 # [0, 0, 0, 0]) 0x22 9
           = Inr True
     \<and> verify_received ([0x00, 0x84, 0x1E, 0xF4, 0x2E, 0x84, 0x7A, 0x55] @ 0x18 # [0, 0, 0, 0]) 0x22 9
           = Inr False"
proof -
  have len: "length [0, 0, 0, 0 :: uint8_t] = 4"
    by simp
  have ne: "(0x00 :: uint8_t) \<noteq> [0xAB, 0x84, 0x1E, 0xF4, 0x2E, 0x84, 0x7A, 0x55] ! 0"
    by simp
  note all = checksum_round_trip [OF len]
  from all have "verify_received ([0xAB, 0x84, 0x1E, 0xF4, 0x2E, 0x84, 0x7A, 0x55] @ 0x18 # [0, 0, 0, 0]) 0x22 9
                   = Inr True"
    by (elim conjE)
  moreover from all have mutated:
    "\<forall>i < 8. \<forall>b. b \<noteq> [0xAB, 0x84, 0x1E, 0xF4, 0x2E, 0x84, 0x7A, 0x55] ! i \<longrightarrow>
       verify_received ([0xAB, 0x84, 0x1E, 0xF4, 0x2E, 0x84, 0x7A, 0x55][i := b] @ 0x18 # [0, 0, 0, 0]) 0x22 9
         = Inr False"
    by (elim conjE)
  have first: "(0 :: nat) < 8"
    by simp
  note mutated [rule_format, OF first ne]
  ultimately show ?thesis
    using len ne by simp
qed

text \<open>
  C2. The mode is chosen inside \<open>getChecksum\<close> from the seed byte it is given: when the
  low six bits of the seed are 0x3C or more the sum starts from 0 (classic), otherwise it
  starts from the seed (enhanced). So the seed \<open>getProtectedID 0x3B\<close> = 0xFB enters the
  sum, and with the seed \<open>getProtectedID 0x3C\<close> the checksum is that of the data bytes
  alone, the same as with seed 0. The data bytes are the first \<open>dataLen\<close> bytes of the
  13 byte buffer.
\<close>

theorem getChecksum_mode_selection:
  assumes "length msg = 13" and "unat dataLen \<le> 13"
  shows "getChecksum msg seed dataLen =
           Inr (NOT (ucast (fold_carry
                  ((if seed AND 0x3F \<ge> 0x3C then 0 else ucast seed)
                   + sum_list (map ucast (take (unat dataLen) msg))))))
       \<and> (seed AND 0x3F \<ge> 0x3C \<longrightarrow> getChecksum msg seed dataLen = getChecksum msg 0 dataLen)
       \<and> getChecksum msg (getProtectedID 0x3B) dataLen =
           Inr (NOT (ucast (fold_carry (0xFB + sum_list (map ucast (take (unat dataLen) msg))))))
       \<and> getChecksum msg (getProtectedID 0x3C) dataLen = getChecksum msg 0 dataLen"
proof -
  have pid_3B: "getProtectedID 0x3B = 0xFB" and pid_3C: "getProtectedID 0x3C = 0x3C"
    by code_simp+
  show ?thesis
    unfolding pid_3B pid_3C
    by (simp add: getChecksum_in_range [OF assms])
qed

theorem getChecksum_mode_selection_witness:
  "length [0xAB, 0x84, 0x1E, 0xF4, 0x2E, 0x84, 0x7A, 0x55, 0, 0, 0, 0, 0 :: uint8_t] = 13
     \<and> unat (8 :: uint8_t) \<le> 13 \<and> (0x3C :: uint8_t) AND 0x3F \<ge> 0x3C
     \<and> getChecksum [0xAB, 0x84, 0x1E, 0xF4, 0x2E, 0x84, 0x7A, 0x55, 0, 0, 0, 0, 0] 0x3C 8
           = getChecksum [0xAB, 0x84, 0x1E, 0xF4, 0x2E, 0x84, 0x7A, 0x55, 0, 0, 0, 0, 0] 0 8"
proof -
  have len: "length [0xAB, 0x84, 0x1E, 0xF4, 0x2E, 0x84, 0x7A, 0x55, 0, 0, 0, 0, 0 :: uint8_t] = 13"
    by simp
  have n: "unat (8 :: uint8_t) \<le> 13"
    by simp
  have classic: "(0x3C :: uint8_t) AND 0x3F \<ge> 0x3C"
    by simp
  from getChecksum_mode_selection [OF len n, of "0x3C"] classic len n show ?thesis
    by blast
qed

text \<open>
  C4. The checksum does not depend on the order of the data bytes: two buffers whose
  first \<open>dataLen\<close> bytes are permutations of each other (equal as multisets), with
  \<open>dataLen\<close> at most the buffer capacity 13, have the same checksum for every seed.
\<close>

theorem getChecksum_order_invariant:
  assumes "length msg = 13" and "length msg' = 13" and "unat dataLen \<le> 13"
    and "mset (take (unat dataLen) msg') = mset (take (unat dataLen) msg)"
  shows "getChecksum msg' seed dataLen = getChecksum msg seed dataLen"
proof -
  have "sum_list (map ucast (take (unat dataLen) msg') :: uint16_t list)
          = sum_mset (image_mset ucast (mset (take (unat dataLen) msg')))"
    by (simp only: sum_mset_sum_list [symmetric] mset_map)
  also have "\<dots> = sum_mset (image_mset ucast (mset (take (unat dataLen) msg)))"
    by (simp only: assms(4))
  also have "\<dots> = sum_list (map ucast (take (unat dataLen) msg) :: uint16_t list)"
    by (simp only: sum_mset_sum_list [symmetric] mset_map)
  finally show ?thesis
    by (simp only: getChecksum_in_range [OF assms(1,3)] getChecksum_in_range [OF assms(2,3)])
qed

theorem getChecksum_order_invariant_witness:
  "length [1, 2, 3, 0, 0, 0, 0, 0, 0, 0, 0, 0, 0 :: uint8_t] = 13
     \<and> length [3, 1, 2, 0, 0, 0, 0, 0, 0, 0, 0, 0, 0 :: uint8_t] = 13
     \<and> unat (3 :: uint8_t) \<le> 13
     \<and> mset (take (unat (3 :: uint8_t)) [3, 1, 2, 0, 0, 0, 0, 0, 0, 0, 0, 0, 0 :: uint8_t])
         = mset (take (unat (3 :: uint8_t)) [1, 2, 3, 0, 0, 0, 0, 0, 0, 0, 0, 0, 0])
     \<and> getChecksum [3, 1, 2, 0, 0, 0, 0, 0, 0, 0, 0, 0, 0] 0x22 3
         = getChecksum [1, 2, 3, 0, 0, 0, 0, 0, 0, 0, 0, 0, 0] 0x22 3"
proof -
  have l1: "length [1, 2, 3, 0, 0, 0, 0, 0, 0, 0, 0, 0, 0 :: uint8_t] = 13"
    and l2: "length [3, 1, 2, 0, 0, 0, 0, 0, 0, 0, 0, 0, 0 :: uint8_t] = 13"
    and n: "unat (3 :: uint8_t) \<le> 13"
    by simp_all
  have three: "unat (3 :: uint8_t) = Suc (Suc (Suc 0))"
    by simp
  have perm: "mset (take (unat (3 :: uint8_t)) [3, 1, 2, 0, 0, 0, 0, 0, 0, 0, 0, 0, 0 :: uint8_t])
                = mset (take (unat (3 :: uint8_t)) [1, 2, 3, 0, 0, 0, 0, 0, 0, 0, 0, 0, 0])"
    unfolding three by (simp add: ac_simps)
  from getChecksum_order_invariant [OF l1 l2 n perm] l1 l2 n perm show ?thesis
    by blast
qed

section \<open>The transport calls of the session\<close>

lemmas transport_defs =
  HardwareSerial_available_def HardwareSerial_read_def HardwareSerial_write_def
  HardwareSerial_flush_def HardwareSerial_updateBaudRate_def HardwareSerial_begin_def
  HardwareSerial_end_def millis_def delay_def Serial_printf_def Serial_print_def
  Serial_println_def

lemma writeBreak_trace:
  "snd (writeBreak s) =
     s\<lparr>calls := calls s @
          [Flush, UpdateBaudRate (drop_bit 1 (baud s)), Write 0x00, Flush, UpdateBaudRate (baud s)]\<rparr>"
  by (simp add: writeBreak_def transport_defs)

text \<open>
  C8. A call of \<open>writeBreak\<close> appends exactly five transport calls to the calls made
  before, in this order: flush, set the baud rate to half the configured rate, write the
  byte 0x00, flush, set the baud rate to the configured rate. It changes nothing else in
  the object and returns the result of the write.
\<close>

theorem writeBreak_call_sequence:
  "writeBreak s =
     (1, s\<lparr>calls := calls s @
              [Flush, UpdateBaudRate (baud s div 2), Write 0x00, Flush, UpdateBaudRate (baud s)]\<rparr>)"
  by (simp add: writeBreak_def transport_defs drop_bit_eq_div)

lemma read_available:
  "HardwareSerial_available s \<Longrightarrow>
   HardwareSerial_read s = (uint (snd (hd (rx s))), s\<lparr>calls := calls s @ [Read], rx := tl (rx s)\<rparr>)"
  by (simp add: HardwareSerial_read_def)

text \<open>
  C5, as the code has it. With the header counter at -2 (break and sync seen), the next
  byte is captured as ProtectedID and the counter becomes 0 when the byte is not 0x00.
  A byte 0x00 is taken as a new break: the counter becomes -3 and the ProtectedID is
  left as it was.
\<close>

theorem receive_byte_identifier:
  assumes "HardwareSerial_available s"
  shows "receive_byte (- 2) ProtectedID s =
           (if snd (hd (rx s)) = 0x00
            then Inr (- 3, ProtectedID, snd (HardwareSerial_read s))
            else Inr (0, snd (hd (rx s)), snd (HardwareSerial_read s)))"
  using assms by (simp add: receive_byte_def read_available)

theorem receive_byte_identifier_witness:
  "HardwareSerial_available (Lin_Interface_new 0 [(0, 0xE2)])
     \<and> receive_byte (- 2) 0x00 (Lin_Interface_new 0 [(0, 0xE2)])
         = Inr (0, 0xE2, (Lin_Interface_new 0 [])\<lparr>calls := [Read]\<rparr>)"
proof -
  have avail: "HardwareSerial_available (Lin_Interface_new 0 [(0, 0xE2)])"
    by (simp add: HardwareSerial_available_def Lin_Interface_new_def)
  from receive_byte_identifier [OF avail, of "0x00"] avail show ?thesis
    by (simp add: HardwareSerial_read_def Lin_Interface_new_def)
qed

text \<open>
  C5 as stated fails for the byte 0x00: after break and sync, the counter goes to -3,
  not to 0.
\<close>

theorem receive_byte_identifier_zero:
  "HardwareSerial_available (Lin_Interface_new 0 [(0, 0x00)])
     \<and> receive_byte (- 2) 0x00 (Lin_Interface_new 0 [(0, 0x00)])
         = Inr (- 3, 0x00, (Lin_Interface_new 0 [])\<lparr>calls := [Read]\<rparr>)
     \<and> receive_byte (- 2) 0x00 (Lin_Interface_new 0 [(0, 0x00)])
         \<noteq> Inr (0, 0x00, (Lin_Interface_new 0 [])\<lparr>calls := [Read]\<rparr>)"
  by (simp add: receive_byte_def transport_defs Lin_Interface_new_def)

text \<open>
  C9. When nothing is echoed, or only the break, sync and identifier bytes, the echo
  loop of \<open>writeFrame\<close> stores no byte and \<open>bytes_received\<close> stays 0: the read of
  the echoed checksum uses index -1, outside the buffer. The checksum recomputation that
  follows is called with \<open>(uint8_t)(-1)\<close> = 255 data bytes, and its first read is at
  index 254.
\<close>

theorem writeFrame_no_echo:
  "writeFrame 0x22 8 (Lin_Interface_new 0 []) = Inl (OutOfBounds (- 1))
     \<and> writeFrame 0x22 8 (Lin_Interface_new 0 [(0, 0x00), (0, 0x55), (0, 0xE2)])
         = Inl (OutOfBounds (- 1))
     \<and> getChecksum (replicate 13 0) 0x00 (word_of_int (0 - 1)) = Inl (OutOfBounds 254)"
  by code_simp

lemma settings_transport [simp]:
  "settings (snd (HardwareSerial_read s)) = settings s"
  "settings (snd (HardwareSerial_write b s)) = settings s"
  "settings (HardwareSerial_flush s) = settings s"
  "settings (HardwareSerial_updateBaudRate r s) = settings s"
  "settings (HardwareSerial_begin r pins s) = settings s"
  "settings (HardwareSerial_end s) = settings s"
  "settings (delay ms s) = settings s"
  "settings (Serial_printf fmt args s) = settings s"
  "settings (Serial_print str s) = settings s"
  "settings (Serial_println s) = settings s"
  "settings (s\<lparr>LinMessage := msg\<rparr>) = settings s"
  by (simp_all add: settings_def transport_defs)

lemma settings_read_uint8 [simp]: "settings (snd (read_uint8 s)) = settings s"
  by (simp add: read_uint8_def split_def Let_def)

lemma settings_setupSerial [simp]: "settings (setupSerial s) = settings s"
  by (simp add: setupSerial_def Let_def)

lemma settings_writeBreak [simp]: "settings (snd (writeBreak s)) = settings s"
  by (simp add: writeBreak_trace settings_def)

lemma settings_startTransmission [simp]: "settings (startTransmission ProtectedID s) = settings s"
  by (simp add: startTransmission_def Let_def)

lemma settings_write_data: "write_data i dataLen s = Inr s' \<Longrightarrow> settings s' = settings s"
proof (induction i dataLen s rule: write_data.induct)
  case (1 i dataLen s)
  show ?case
  proof (cases "i < uint dataLen")
    case False
    with "1.prems" show ?thesis
      by (simp add: write_data.simps [of i])
  next
    case True
    with "1.prems" obtain b where at: "LinMessage_at (LinMessage s) i = Inr b"
      and rest: "write_data (i + 1) dataLen (snd (HardwareSerial_write b s)) = Inr s'"
      by (auto simp add: write_data.simps [of i] andThen_def split: sum.splits)
    from "1.IH" [OF True at rest] show ?thesis
      by simp
  qed
qed

lemma settings_store_echo: "store_echo bytes_received s = Inr s' \<Longrightarrow> settings s' = settings s"
  by (auto simp add: store_echo_def split_def Let_def andThen_def split: sum.splits)

lemma settings_read_echo:
  "read_echo bytes_received s = Inr (moreData, n, s') \<Longrightarrow> settings s' = settings s"
proof (induction bytes_received s rule: read_echo.induct)
  case (1 bytes_received s)
  show ?case
  proof (cases "HardwareSerial_available s \<and> \<not> bytes_received \<ge> 8 + 1 + 4")
    case False
    with "1.prems" show ?thesis
      by (auto simp add: read_echo.simps [of bytes_received] split: if_splits)
  next
    case True
    with "1.prems" obtain s1 where step: "store_echo bytes_received s = Inr s1"
      and rest: "read_echo (bytes_received + 1) s1 = Inr (moreData, n, s')"
      by (auto simp add: read_echo.simps [of bytes_received] andThen_def split: sum.splits)
    from True have "HardwareSerial_available s" "\<not> 8 + 1 + 4 \<le> bytes_received"
      by simp_all
    from "1.IH" [OF this step rest] settings_store_echo [OF step] show ?thesis
      by simp
  qed
qed

lemma settings_print_echo: "print_echo i n s = Inr s' \<Longrightarrow> settings s' = settings s"
proof (induction i n s rule: print_echo.induct)
  case (1 i n s)
  show ?case
  proof (cases "i < 8 + 1 + 4 \<and> \<not> i \<ge> n")
    case False
    with "1.prems" show ?thesis
      by (auto simp add: print_echo.simps [of i] split: if_splits)
  next
    case True
    with "1.prems" obtain b where at: "LinMessage_at (LinMessage s) i = Inr b"
      and rest: "print_echo (i + 1) n (Serial_printf ''%02X '' [uint b] s) = Inr s'"
      by (auto simp add: print_echo.simps [of i] andThen_def split: sum.splits)
    from True have "i < 8 + 1 + 4" "\<not> n \<le> i"
      by simp_all
    from "1.IH" [OF this at rest] show ?thesis
      by simp
  qed
qed

lemma writeFrame_transmit_settings:
  assumes "writeFrame_transmit FrameID dataLen s = Inr (ProtectedID, cksum, s1)"
  shows "settings s1 = (1, baud s, rxPin s, txPin s)"
proof -
  from assms obtain s0 where
    data: "write_data 0 dataLen (startTransmission (getProtectedID FrameID) s) = Inr s0"
    and s1: "s1 = (delay 10 (snd (HardwareSerial_write cksum s0)))\<lparr>verboseMode := 1\<rparr>"
    by (auto simp add: writeFrame_transmit_def Let_def andThen_def split: sum.splits)
  from settings_write_data [OF data] have "settings s0 = settings s"
    by simp
  then have "settings (delay 10 (snd (HardwareSerial_write cksum s0))) = settings s"
    by simp
  then show ?thesis
    by (simp add: s1 settings_def)
qed

lemma writeFrame_echo_settings:
  assumes "writeFrame_echo FrameID ProtectedID cksum s = Inr s'"
  shows "settings s' = settings s"
proof -
  define sa where "sa = (if HardwareSerial_available s then snd (HardwareSerial_read s) else s)"
  define sb where "sb = (if HardwareSerial_available sa then snd (read_uint8 sa) else sa)"
  define sc where "sc = (if HardwareSerial_available sb then snd (read_uint8 sb) else sb)"
  have abc: "settings sc = settings s"
    by (simp add: sa_def sb_def sc_def)
  from assms obtain moreData n s2 s3 where
    echo: "read_echo 0 sc = Inr (moreData, n, s2)"
    and fin: "sint (verboseMode (HardwareSerial_end (HardwareSerial_flush s2))) > 0 \<longrightarrow>
                (print_echo 0 (n - 1)
                   (Serial_printf '' <<<<<<--- FID %02Xh (%02X)   = %02X|%02X|''
                      [uint FrameID, uint ProtectedID,
                       uint (if HardwareSerial_available sa then fst (read_uint8 sa) else 0x00),
                       uint (if HardwareSerial_available sb then fst (read_uint8 sb) else 0x00)]
                      (HardwareSerial_end (HardwareSerial_flush s2))) = Inr s3
                 \<and> settings s' = settings s3)"
    and nolog: "\<not> sint (verboseMode (HardwareSerial_end (HardwareSerial_flush s2))) > 0 \<longrightarrow>
                  s' = HardwareSerial_end (HardwareSerial_flush s2)"
    unfolding writeFrame_echo_def sa_def sb_def sc_def Let_def split_def andThen_def
    by (fastforce split: sum.splits if_splits)
  from settings_read_echo [OF echo] abc have s2: "settings s2 = settings s"
    by simp
  show ?thesis
  proof (cases "sint (verboseMode (HardwareSerial_end (HardwareSerial_flush s2))) > 0")
    case False
    with nolog s2 show ?thesis
      by simp
  next
    case True
    with fin have
      pe: "print_echo 0 (n - 1)
             (Serial_printf '' <<<<<<--- FID %02Xh (%02X)   = %02X|%02X|''
                [uint FrameID, uint ProtectedID,
                 uint (if HardwareSerial_available sa then fst (read_uint8 sa) else 0x00),
                 uint (if HardwareSerial_available sb then fst (read_uint8 sb) else 0x00)]
                (HardwareSerial_end (HardwareSerial_flush s2))) = Inr s3"
      and eq: "settings s' = settings s3"
      by simp_all
    from settings_print_echo [OF pe] have "settings s3 = settings s2"
      by simp
    with eq s2 show ?thesis
      by simp
  qed
qed

lemma write_data_total:
  "0 \<le> i \<Longrightarrow> uint dataLen \<le> 13 \<Longrightarrow> \<exists>s'. write_data i dataLen s = Inr s'"
proof (induction i dataLen s rule: write_data.induct)
  case (1 i dataLen s)
  show ?case
  proof (cases "i < uint dataLen")
    case False
    then show ?thesis
      by (simp add: write_data.simps [of i])
  next
    case True
    with "1.prems" have at: "LinMessage_at (LinMessage s) i = Inr (LinMessage s ! nat i)"
      by (simp add: LinMessage_at_def)
    from "1.IH" [OF True at] "1.prems"
    obtain s' where "write_data (i + 1) dataLen (snd (HardwareSerial_write (LinMessage s ! nat i) s)) = Inr s'"
      by auto
    with True at show ?thesis
      by (simp add: write_data.simps [of i])
  qed
qed

lemma available_iff:
  "HardwareSerial_available s \<longleftrightarrow> rx s \<noteq> [] \<and> fst (hd (rx s)) \<le> clock s"
  by (cases "rx s") (auto simp add: HardwareSerial_available_def)

lemma store_echo_total:
  assumes "0 \<le> bytes_received" and "bytes_received < 13"
  shows "\<exists>s'. store_echo bytes_received s = Inr s'
            \<and> length (LinMessage s') = length (LinMessage s)"
  using assms by (simp add: store_echo_def split_def Let_def LinMessage_store_def HardwareSerial_read_def)

lemma read_echo_total:
  assumes "0 \<le> bytes_received" and "bytes_received \<le> 13"
  shows "\<exists>moreData n s'. read_echo bytes_received s = Inr (moreData, n, s')
            \<and> bytes_received \<le> n \<and> n \<le> 13
            \<and> (HardwareSerial_available s \<and> bytes_received < 13 \<longrightarrow> bytes_received < n)
            \<and> length (LinMessage s') = length (LinMessage s)"
  using assms
proof (induction bytes_received s rule: read_echo.induct)
  case (1 bytes_received s)
  show ?case
  proof (cases "HardwareSerial_available s \<and> \<not> bytes_received \<ge> 8 + 1 + 4")
    case False
    with "1.prems" show ?thesis
      by (auto simp add: read_echo.simps [of bytes_received])
  next
    case True
    then have avail: "HardwareSerial_available s" and room: "\<not> 8 + 1 + 4 \<le> bytes_received"
      by simp_all
    from room have lt: "bytes_received < 13"
      by simp
    from store_echo_total [OF "1.prems"(1) lt, of s]
    obtain s1 where step: "store_echo bytes_received s = Inr s1"
      and len: "length (LinMessage s1) = length (LinMessage s)"
      by blast
    have next_ok: "0 \<le> bytes_received + 1" "bytes_received + 1 \<le> 13"
      using "1.prems"(1) lt by simp_all
    from "1.IH" [OF avail room step next_ok]
    obtain moreData n s' where rest: "read_echo (bytes_received + 1) s1 = Inr (moreData, n, s')"
      and n: "bytes_received + 1 \<le> n" "n \<le> 13"
      and len': "length (LinMessage s') = length (LinMessage s1)"
      by blast
    have "read_echo bytes_received s = Inr (moreData, n, s')"
      using avail room step rest by (simp add: read_echo.simps [of bytes_received])
    with n len len' show ?thesis
      by simp
  qed
qed

lemma print_echo_total: "0 \<le> i \<Longrightarrow> \<exists>s'. print_echo i n s = Inr s'"
proof (induction i n s rule: print_echo.induct)
  case (1 i n s)
  show ?case
  proof (cases "i < 8 + 1 + 4 \<and> \<not> i \<ge> n")
    case False
    then show ?thesis
      by (auto simp add: print_echo.simps [of i])
  next
    case True
    then have i: "i < 8 + 1 + 4" "\<not> n \<le> i"
      by simp_all
    have at: "LinMessage_at (LinMessage s) i = Inr (LinMessage s ! nat i)"
      using "1.prems" i by (simp add: LinMessage_at_def)
    from "1.IH" [OF i at] "1.prems"
    obtain s' where "print_echo (i + 1) n (Serial_printf ''%02X '' [uint (LinMessage s ! nat i)] s) = Inr s'"
      by auto
    then show ?thesis
      using i at by (simp add: print_echo.simps [of i])
  qed
qed

text \<open>
  The echo part of \<open>writeFrame\<close> returns when a fourth byte (the first byte after
  break, sync and identifier) is available once the first three have been read.
\<close>

lemma writeFrame_echo_total:
  assumes len: "length (LinMessage s) = 13"
    and four: "length (rx s) \<ge> 4" "\<forall>p \<in> set (take 4 (rx s)). fst p \<le> clock s"
  shows "\<exists>s'. writeFrame_echo FrameID ProtectedID cksum s = Inr s'"
proof -
  from four(1) obtain p1 p2 p3 p4 rest where rx: "rx s = p1 # p2 # p3 # p4 # rest"
    by (cases "rx s"; simp; rename_tac a l, case_tac l; simp; rename_tac b l, case_tac l; simp;
        rename_tac c l, case_tac l; simp)
  with four(2) have t: "fst p1 \<le> clock s" "fst p2 \<le> clock s" "fst p3 \<le> clock s" "fst p4 \<le> clock s"
    by simp_all
  let ?sa = "snd (HardwareSerial_read s)"
  let ?sb = "snd (read_uint8 ?sa)"
  let ?sc = "snd (read_uint8 ?sb)"
  have av: "HardwareSerial_available s"
    using rx t by (simp add: available_iff)
  have a: "rx ?sa = p2 # p3 # p4 # rest" "clock ?sa = clock s" "LinMessage ?sa = LinMessage s"
    using rx t by (simp_all add: available_iff HardwareSerial_read_def)
  have ava: "HardwareSerial_available ?sa"
    using a t by (simp add: available_iff)
  have b: "rx ?sb = p3 # p4 # rest" "clock ?sb = clock s" "LinMessage ?sb = LinMessage s"
    using a t ava
    by (simp_all add: read_uint8_def Let_def split_def HardwareSerial_read_def [of ?sa])
  have avb: "HardwareSerial_available ?sb"
    using b t by (simp add: available_iff)
  have c: "rx ?sc = p4 # rest" "clock ?sc = clock s" "LinMessage ?sc = LinMessage s"
    using b t avb
    by (simp_all add: read_uint8_def [of ?sb] Let_def split_def HardwareSerial_read_def [of ?sb])
  have avc: "HardwareSerial_available ?sc"
    using c t by (simp add: available_iff)
  from read_echo_total [of 0 ?sc] avc
  obtain moreData n s2 where echo: "read_echo 0 ?sc = Inr (moreData, n, s2)"
    and n: "0 < n" "n \<le> 13" and len2: "length (LinMessage s2) = length (LinMessage ?sc)"
    by auto
  have at: "LinMessage_at (LinMessage s2) (n - 1) = Inr (LinMessage s2 ! nat (n - 1))"
    using n by (simp add: LinMessage_at_def)
  let ?s3 = "HardwareSerial_end (HardwareSerial_flush s2)"
  have len3: "length (LinMessage ?s3) = 13"
    using len2 c len by (simp add: HardwareSerial_end_def HardwareSerial_flush_def)
  have "0 \<le> n - 1" "n - 1 < 2 ^ LENGTH(8)"
    using n by simp_all
  then have "take_bit LENGTH(8) (n - 1) = n - 1"
    by (rule take_bit_int_eq_self)
  then have "uint (word_of_int (n - 1) :: uint8_t) = n - 1"
    by (simp only: uint_word_of_int_eq)
  then have "unat (word_of_int (n - 1) :: uint8_t) = nat (n - 1)"
    by (simp add: unat_eq_nat_uint)
  then have "unat (word_of_int (n - 1) :: uint8_t) \<le> 13"
    using n by simp
  from getChecksum_in_range [OF len3 this]
  obtain calc where calc: "getChecksum (LinMessage ?s3) (fst (read_uint8 ?sb)) (word_of_int (n - 1)) = Inr calc"
    by blast
  obtain s4 where pe: "print_echo 0 (n - 1)
             (Serial_printf '' <<<<<<--- FID %02Xh (%02X)   = %02X|%02X|''
                [uint FrameID, uint ProtectedID, uint (fst (read_uint8 ?sa)), uint (fst (read_uint8 ?sb))]
                ?s3) = Inr s4"
    using print_echo_total [of 0] by blast
  show ?thesis
    unfolding writeFrame_echo_def Let_def split_def
    using av ava avb echo at calc pe by simp
qed

lemma write_data_environment:
  "write_data i dataLen s = Inr s' \<Longrightarrow>
   rx s' = rx s \<and> clock s' = clock s \<and> LinMessage s' = LinMessage s"
proof (induction i dataLen s rule: write_data.induct)
  case (1 i dataLen s)
  show ?case
  proof (cases "i < uint dataLen")
    case False
    with "1.prems" show ?thesis
      by (simp add: write_data.simps [of i])
  next
    case True
    with "1.prems" obtain b where at: "LinMessage_at (LinMessage s) i = Inr b"
      and rest: "write_data (i + 1) dataLen (snd (HardwareSerial_write b s)) = Inr s'"
      by (auto simp add: write_data.simps [of i] andThen_def split: sum.splits)
    from "1.IH" [OF True at rest] show ?thesis
      by (simp add: HardwareSerial_write_def)
  qed
qed

lemma startTransmission_buffers:
  "rx (startTransmission ProtectedID s) = rx s"
  "clock (startTransmission ProtectedID s) = clock s + 20"
  "LinMessage (startTransmission ProtectedID s) = LinMessage s"
  by (simp_all add: startTransmission_def setupSerial_def writeBreak_def transport_defs Let_def)

lemma writeFrame_transmit_environment:
  assumes "writeFrame_transmit FrameID dataLen s = Inr (ProtectedID, cksum, s1)"
  shows "rx s1 = rx s \<and> clock s1 = clock s + 30 \<and> LinMessage s1 = LinMessage s"
proof -
  from assms obtain s0 where
    data: "write_data 0 dataLen (startTransmission (getProtectedID FrameID) s) = Inr s0"
    and s1: "s1 = (delay 10 (snd (HardwareSerial_write cksum s0)))\<lparr>verboseMode := 1\<rparr>"
    by (auto simp add: writeFrame_transmit_def Let_def andThen_def split: sum.splits)
  from write_data_environment [OF data] show ?thesis
    by (simp add: s1 startTransmission_buffers delay_def HardwareSerial_write_def)
qed

text \<open>
  C10. For a frame whose \<open>dataLen\<close> bytes lie inside the buffer, the sending part of
  \<open>writeFrame\<close> completes and leaves \<open>verboseMode\<close> at 1, whatever it was, with
  \<open>baud\<close>, \<open>rxPin\<close> and \<open>txPin\<close> unchanged; the echoed bytes are inspected after
  that, in this state. Whenever the call returns, \<open>verboseMode\<close> is still 1 and the
  three configuration fields are what they were before the call. The call does return
  when four bytes (break, sync, identifier and one more) have been echoed by the time
  the echo is read, 30 ms after the start.
\<close>

theorem writeFrame_enables_verboseMode:
  assumes "length (LinMessage s) = 13" and "unat dataLen \<le> 13"
  shows "(\<exists>ProtectedID cksum s1.
            writeFrame_transmit FrameID dataLen s = Inr (ProtectedID, cksum, s1)
          \<and> writeFrame FrameID dataLen s = writeFrame_echo FrameID ProtectedID cksum s1
          \<and> verboseMode s1 = 1 \<and> baud s1 = baud s \<and> rxPin s1 = rxPin s \<and> txPin s1 = txPin s)
       \<and> (\<forall>s'. writeFrame FrameID dataLen s = Inr s' \<longrightarrow>
            verboseMode s' = 1 \<and> baud s' = baud s \<and> rxPin s' = rxPin s \<and> txPin s' = txPin s)
       \<and> (4 \<le> length (rx s) \<and> (\<forall>p \<in> set (take 4 (rx s)). fst p \<le> clock s + 30) \<longrightarrow>
            (\<exists>s'. writeFrame FrameID dataLen s = Inr s'))"
proof -
  let ?pid = "getProtectedID FrameID"
  from getChecksum_in_range [OF assms] obtain cksum where
    ck: "getChecksum (LinMessage s) ?pid dataLen = Inr cksum"
    by blast
  have "uint dataLen = int (unat dataLen)"
    by (rule uint_nat)
  with assms(2) have small: "uint dataLen \<le> 13"
    by linarith
  have start: "(0 :: int) \<le> 0"
    by simp
  from write_data_total [OF start small]
  obtain s0 where data: "write_data 0 dataLen (startTransmission ?pid s) = Inr s0"
    by blast
  define s1 where "s1 = (delay 10 (snd (HardwareSerial_write cksum s0)))\<lparr>verboseMode := 1\<rparr>"
  have tx: "writeFrame_transmit FrameID dataLen s = Inr (?pid, cksum, s1)"
    by (simp add: writeFrame_transmit_def Let_def ck data s1_def)
  then have whole: "writeFrame FrameID dataLen s = writeFrame_echo FrameID ?pid cksum s1"
    by (simp add: writeFrame_def)
  from writeFrame_transmit_settings [OF tx]
  have set1: "settings s1 = (1, baud s, rxPin s, txPin s)" .
  have after: "verboseMode s' = 1 \<and> baud s' = baud s \<and> rxPin s' = rxPin s \<and> txPin s' = txPin s"
    if "writeFrame FrameID dataLen s = Inr s'" for s'
  proof -
    from that have "writeFrame_echo FrameID ?pid cksum s1 = Inr s'"
      unfolding whole .
    from writeFrame_echo_settings [OF this] set1 show ?thesis
      by (simp add: settings_def)
  qed
  from set1 have fields: "verboseMode s1 = 1" "baud s1 = baud s" "rxPin s1 = rxPin s" "txPin s1 = txPin s"
    by (simp_all add: settings_def)
  have first: "\<exists>ProtectedID cksum s1.
            writeFrame_transmit FrameID dataLen s = Inr (ProtectedID, cksum, s1)
          \<and> writeFrame FrameID dataLen s = writeFrame_echo FrameID ProtectedID cksum s1
          \<and> verboseMode s1 = 1 \<and> baud s1 = baud s \<and> rxPin s1 = rxPin s \<and> txPin s1 = txPin s"
    using tx whole fields by blast
  from after have second: "\<forall>s'. writeFrame FrameID dataLen s = Inr s' \<longrightarrow>
            verboseMode s' = 1 \<and> baud s' = baud s \<and> rxPin s' = rxPin s \<and> txPin s' = txPin s"
    by blast
  have third: "\<exists>s'. writeFrame FrameID dataLen s = Inr s'"
    if echo: "4 \<le> length (rx s) \<and> (\<forall>p \<in> set (take 4 (rx s)). fst p \<le> clock s + 30)"
  proof -
    from writeFrame_transmit_environment [OF tx]
    have env: "rx s1 = rx s" "clock s1 = clock s + 30" "LinMessage s1 = LinMessage s"
      by simp_all
    have "length (LinMessage s1) = 13" "length (rx s1) \<ge> 4"
      "\<forall>p \<in> set (take 4 (rx s1)). fst p \<le> clock s1"
      using env assms(1) echo by simp_all
    from writeFrame_echo_total [OF this] show ?thesis
      by (simp only: whole)
  qed
  from first second third show ?thesis
    by blast
qed

theorem writeFrame_enables_verboseMode_witness:
  "length (LinMessage ((Lin_Interface_new 0 (map (Pair 0) [0x00, 0x55, 0xE2, 0x00, 0x00, 0x1D]))
             \<lparr>verboseMode := 0\<rparr>)) = 13
     \<and> unat (2 :: uint8_t) \<le> 13
     \<and> writeFrame 0x22 2 ((Lin_Interface_new 0 (map (Pair 0) [0x00, 0x55, 0xE2, 0x00, 0x00, 0x1D]))
             \<lparr>verboseMode := 0\<rparr>)
         = Inr \<lparr>verboseMode = 1, baud = 19200, rxPin = - 1, txPin = - 1,
                LinMessage = [0x00, 0x00, 0x1D, 0, 0, 0, 0, 0, 0, 0, 0, 0, 0],
                LinMessageID = 0, LinMessageSize = 0,
                calls = [Begin 19200 None, Flush, UpdateBaudRate 9600, Write 0x00, Flush,
                         UpdateBaudRate 19200, Write 0x55, Write 0xE2, Write 0x00, Write 0x00,
                         Write 0x1D, Read, Read, Read, Read, Read, Read, Flush, End],
                rx = [], clock = 30,
                console =
                  [Printf ''Serial settings to be applied: %d, %d, %d, %d\<newline>''
                     [19200, 0x800001c, - 1, - 1],
                   Printf '' <<<<<<--- FID %02Xh (%02X)   = %02X|%02X|'' [0x22, 0xE2, 0x55, 0xE2],
                   Printf ''%02X '' [0], Printf ''%02X '' [0],
                   Printf (CHR 0x08 # ''|%02X'') [0x1D], Println]\<rparr>"
proof -
  let ?s = "(Lin_Interface_new 0 (map (Pair 0) [0x00, 0x55, 0xE2, 0x00, 0x00, 0x1D]))\<lparr>verboseMode := 0\<rparr>"
  let ?r = "\<lparr>verboseMode = 1, baud = 19200, rxPin = - 1, txPin = - 1,
                LinMessage = [0x00, 0x00, 0x1D, 0, 0, 0, 0, 0, 0, 0, 0, 0, 0],
                LinMessageID = 0, LinMessageSize = 0,
                calls = [Begin 19200 None, Flush, UpdateBaudRate 9600, Write 0x00, Flush,
                         UpdateBaudRate 19200, Write 0x55, Write 0xE2, Write 0x00, Write 0x00,
                         Write 0x1D, Read, Read, Read, Read, Read, Read, Flush, End],
                rx = [], clock = 30,
                console =
                  [Printf ''Serial settings to be applied: %d, %d, %d, %d\<newline>''
                     [19200, 0x800001c, - 1, - 1],
                   Printf '' <<<<<<--- FID %02Xh (%02X)   = %02X|%02X|'' [0x22, 0xE2, 0x55, 0xE2],
                   Printf ''%02X '' [0], Printf ''%02X '' [0],
                   Printf (CHR 0x08 # ''|%02X'') [0x1D], Println]\<rparr>"
  have len: "length (LinMessage ?s) = 13"
    by (simp add: Lin_Interface_new_def)
  have n: "unat (2 :: uint8_t) \<le> 13"
    by simp
  have run: "writeFrame 0x22 2 ?s = Inr ?r"
    by code_simp
  from writeFrame_enables_verboseMode [OF len n, of "0x22"] run
  have "verboseMode ?r = 1 \<and> baud ?r = baud ?s"
    by blast
  with len n run show ?thesis
    by blast
qed

section \<open>Receiving a frame\<close>


lemma wait_for_data_never:
  assumes "wait_for_data timeoutAt timedOut s = Some y"
  shows "\<not> (timeoutAt = - 1 \<and> \<not> timedOut \<and> rx s = [])"
proof (rule wait_for_data.raw_induct
    [where P = "\<lambda>timeoutAt timedOut s y. \<not> (timeoutAt = - 1 \<and> \<not> timedOut \<and> rx s = [])",
     OF _ assms])
  fix wait :: "unsigned_long \<Rightarrow> bool \<Rightarrow> Lin_Interface \<Rightarrow> (bool \<times> Lin_Interface) option"
    and timeoutAt timedOut s y
  assume IH: "\<And>timeoutAt timedOut s y. wait timeoutAt timedOut s = Some y \<Longrightarrow>
                \<not> (timeoutAt = - 1 \<and> \<not> timedOut \<and> rx s = [])"
    and body: "(if \<not> HardwareSerial_available s \<and> \<not> timedOut
                then let timedOut = timeoutAt < millis s
                     in wait timeoutAt timedOut (if timedOut then s else s\<lparr>clock := clock s + 1\<rparr>)
                else Some (timedOut, s)) = Some y"
  show "\<not> (timeoutAt = - 1 \<and> \<not> timedOut \<and> rx s = [])"
  proof
    assume inv: "timeoutAt = - 1 \<and> \<not> timedOut \<and> rx s = []"
    then have idle: "\<not> HardwareSerial_available s"
      by (simp add: HardwareSerial_available_def)
    from inv have never: "\<not> timeoutAt < millis s"
      by simp
    from body inv idle never
    have "wait timeoutAt False (s\<lparr>clock := clock s + 1\<rparr>) = Some y"
      by (simp add: Let_def)
    from IH [OF this] inv show False
      by simp
  qed
qed

lemma wait_for_data_rollover:
  "rx s = [] \<Longrightarrow> wait_for_data (- 1) False s = None"
  using wait_for_data_never [of "- 1" False s] by (cases "wait_for_data (- 1) False s") auto

lemma wait_for_data_steps:
  assumes "\<forall>j < d. \<not> timeoutAt < of_nat (clock s + j)"
    and "timeoutAt < of_nat (clock s + d)"
    and "rx s = [] \<or> clock s + d < fst (hd (rx s))"
  shows "wait_for_data timeoutAt False s = Some (True, s\<lparr>clock := clock s + d\<rparr>)"
  using assms
proof (induction d arbitrary: s)
  case 0
  then have idle: "\<not> HardwareSerial_available s"
    by (auto simp add: HardwareSerial_available_def split: list.splits)
  from 0 have "timeoutAt < millis s"
    by (simp add: millis_def)
  with idle show ?case
    by (simp add: wait_for_data.simps [of timeoutAt False s] wait_for_data.simps [of timeoutAt True s])
next
  case (Suc d)
  then have idle: "\<not> HardwareSerial_available s"
    by (auto simp add: HardwareSerial_available_def split: list.splits)
  from Suc.prems(1) have now: "\<not> timeoutAt < millis s"
    by (auto simp add: millis_def)
  let ?s = "s\<lparr>clock := clock s + 1\<rparr>"
  have "wait_for_data timeoutAt False ?s = Some (True, ?s\<lparr>clock := clock ?s + d\<rparr>)"
  proof (rule Suc.IH)
    show "\<forall>j<d. \<not> timeoutAt < of_nat (clock ?s + j)"
      using Suc.prems(1) by (auto simp add: ac_simps dest: spec [of _ "Suc _"])
    show "timeoutAt < of_nat (clock ?s + d)"
      using Suc.prems(2) by (simp add: ac_simps)
    show "rx ?s = [] \<or> clock ?s + d < fst (hd (rx ?s))"
      using Suc.prems(3) by simp
  qed
  with idle now show ?case
    by (simp add: wait_for_data.simps [of timeoutAt False s])
qed

lemma receive_byte_total:
  assumes "- 4 \<le> bytes_received" and "bytes_received \<le> 8"
  shows "\<exists>n pid s'. receive_byte bytes_received ProtectedID s = Inr (n, pid, s')
           \<and> - 4 \<le> n \<and> n \<le> 9 \<and> length (LinMessage s') = length (LinMessage s)"
proof (cases "bytes_received = - 4 \<or> bytes_received = - 3 \<or> bytes_received = - 2 \<or> bytes_received = - 1")
  case True
  then show ?thesis
    by (auto simp add: receive_byte_def Let_def split_def HardwareSerial_read_def)
next
  case False
  with assms have "0 \<le> bytes_received" "bytes_received < 13"
    by linarith+
  with False assms show ?thesis
    by (simp add: receive_byte_def Let_def split_def LinMessage_store_def HardwareSerial_read_def)
qed

lemma receive_loop_total:
  assumes "- 4 \<le> bytes_received" and "bytes_received \<le> 9"
  shows "\<exists>n pid s'. receive_loop bytes_received ProtectedID s = Inr (n, pid, s')
           \<and> - 4 \<le> n \<and> n \<le> 9 \<and> length (LinMessage s') = length (LinMessage s)"
  using assms
proof (induction bytes_received ProtectedID s rule: receive_loop.induct)
  case (1 bytes_received ProtectedID s)
  show ?case
  proof (cases "HardwareSerial_available s \<and> \<not> bytes_received \<ge> 8 + 1")
    case False
    with "1.prems" show ?thesis
      by (auto simp add: receive_loop.simps [of bytes_received])
  next
    case True
    then have avail: "HardwareSerial_available s" and more: "\<not> 8 + 1 \<le> bytes_received"
      by simp_all
    from more have "bytes_received \<le> 8"
      by simp
    from receive_byte_total [OF "1.prems"(1) this, of ProtectedID s]
    obtain n pid s1 where step: "receive_byte bytes_received ProtectedID s = Inr (n, pid, s1)"
      and n: "- 4 \<le> n" "n \<le> 9" and len: "length (LinMessage s1) = length (LinMessage s)"
      by blast
    let ?s = "if \<not> HardwareSerial_available s1 then delay 2 s1 else s1"
    from "1.IH" [OF avail more step refl refl n]
    obtain n' pid' s' where rest: "receive_loop n pid ?s = Inr (n', pid', s')"
      and n': "- 4 \<le> n'" "n' \<le> 9" and len': "length (LinMessage s') = length (LinMessage ?s)"
      by blast
    have "receive_loop bytes_received ProtectedID s = Inr (n', pid', s')"
      using avail more step rest by (simp add: receive_loop.simps [of bytes_received])
    moreover have "length (LinMessage ?s) = length (LinMessage s)"
      using len by (simp add: delay_def)
    ultimately show ?thesis
      using n' len' by simp
  qed
qed

lemma receive_loop_idle:
  "\<not> HardwareSerial_available s \<Longrightarrow>
   receive_loop bytes_received ProtectedID s = Inr (bytes_received, ProtectedID, s)"
  by (simp add: receive_loop.simps [of bytes_received])

lemma discard_rest_idle: "\<not> HardwareSerial_available s \<Longrightarrow> discard_rest s = s"
  by (simp add: discard_rest.simps [of s])

lemma discard_rest_fields:
  "LinMessage (discard_rest s) = LinMessage s \<and> verboseMode (discard_rest s) = verboseMode s"
proof (induction s rule: discard_rest.induct)
  case (1 s)
  show ?case
  proof (cases "HardwareSerial_available s")
    case False
    then show ?thesis
      by (simp add: discard_rest_idle)
  next
    case True
    have "discard_rest s = discard_rest (snd (HardwareSerial_read s))"
      using True by (subst discard_rest.simps) simp
    with "1.IH" [OF True] show ?thesis
      by (simp add: HardwareSerial_read_def True)
  qed
qed

lemma print_received_total:
  "0 \<le> i \<Longrightarrow> \<exists>out. print_received i n s = Inr (s\<lparr>console := console s @ out\<rparr>)"
proof (induction i n s rule: print_received.induct)
  case (1 i n s)
  show ?case
  proof (cases "i < 8 \<and> \<not> i > n")
    case False
    then have "print_received i n s = Inr s"
      by (auto simp add: print_received.simps [of i])
    then have "print_received i n s = Inr (s\<lparr>console := console s @ []\<rparr>)"
      by simp
    then show ?thesis
      by blast
  next
    case True
    then have i: "i < 8" "\<not> n < i"
      by simp_all
    have at: "LinMessage_at (LinMessage s) i = Inr (LinMessage s ! nat i)"
      using "1.prems" i by (simp add: LinMessage_at_def)
    let ?s = "Serial_printf ''%02X '' [uint (LinMessage s ! nat i)] s"
    from "1.IH" [OF i at] "1.prems"
    obtain out where "print_received (i + 1) n ?s = Inr (?s\<lparr>console := console ?s @ out\<rparr>)"
      by auto
    then have "print_received i n s =
                 Inr (s\<lparr>console := console s @ (Printf ''%02X '' [uint (LinMessage s ! nat i)] # out)\<rparr>)"
      using i at by (simp add: print_received.simps [of i] Serial_printf_def)
    then show ?thesis
      by blast
  qed
qed

lemma listenBus_report_total:
  assumes "bytes_received \<le> 13"
  shows "\<exists>out. listenBus_report timedOut bytes_received ProtectedID ChecksumValid s
                  = Inr (s\<lparr>console := console s @ out\<rparr>)"
proof -
  have silent: "s = s\<lparr>console := console s @ []\<rparr>"
    by simp
  have one: "Serial_printf fmt args s = s\<lparr>console := console s @ [Printf fmt args]\<rparr>" for fmt args
    by (simp add: Serial_printf_def)
  show ?thesis
  proof (cases "sint (verboseMode s) > 0 \<and> \<not> timedOut \<and> \<not> bytes_received < 0")
    case False
    then consider "\<not> sint (verboseMode s) > 0" | "sint (verboseMode s) > 0" "timedOut"
      | "sint (verboseMode s) > 0" "\<not> timedOut" "bytes_received < 0"
      by blast
    then show ?thesis
    proof cases
      case 1
      then have "listenBus_report timedOut bytes_received ProtectedID ChecksumValid s = Inr s"
        by (simp add: listenBus_report_def)
      with silent show ?thesis
        by metis
    next
      case 2
      then show ?thesis
        by (auto simp add: listenBus_report_def one)
    next
      case 3
      then show ?thesis
        by (auto simp add: listenBus_report_def one)
    qed
  next
    case True
    let ?s = "Serial_printf ''00 55 %02X (%02X), '' [uint (ProtectedID AND 0x3F), uint ProtectedID] s"
    obtain out where pr: "print_received 0 bytes_received ?s = Inr (?s\<lparr>console := console ?s @ out\<rparr>)"
      using print_received_total [of 0 bytes_received ?s] by auto
    let ?t = "?s\<lparr>console := console ?s @ out\<rparr>"
    have msg: "LinMessage ?t = LinMessage s"
      by (simp add: Serial_printf_def)
    show ?thesis
    proof (cases "bytes_received > 1")
      case False
      with True pr show ?thesis
        by (auto simp add: listenBus_report_def Let_def Serial_printf_def)
    next
      case big: True
      with assms have "LinMessage_at (LinMessage ?t) (bytes_received - 1)
                         = Inr (LinMessage s ! nat (bytes_received - 1))"
        by (simp add: LinMessage_at_def Serial_printf_def)
      with True pr big show ?thesis
        by (auto simp add: listenBus_report_def Let_def Serial_printf_def)
    qed
  qed
qed

lemma verify_received_total:
  assumes "length msg = 13" and "1 \<le> n" and "n \<le> 9"
  shows "\<exists>valid. verify_received msg ProtectedID n = Inr valid"
proof -
  have at: "LinMessage_at msg (n - 1) = Inr (msg ! nat (n - 1))"
    using assms by (simp add: LinMessage_at_def)
  have "0 \<le> n - 1" "n - 1 < 2 ^ LENGTH(8)"
    using assms by simp_all
  then have "take_bit LENGTH(8) (n - 1) = n - 1"
    by (rule take_bit_int_eq_self)
  then have "uint (word_of_int (n - 1) :: uint8_t) = n - 1"
    by (simp only: uint_word_of_int_eq)
  then have "unat (word_of_int (n - 1) :: uint8_t) = nat (n - 1)"
    by (simp add: unat_eq_nat_uint)
  then have "unat (word_of_int (n - 1) :: uint8_t) \<le> 13"
    using assms by simp
  from getChecksum_in_range [OF assms(1) this] at show ?thesis
    by (simp add: verify_received_def)
qed

lemma wait_for_data_clock:
  assumes "wait_for_data timeoutAt timedOut s = Some y"
  shows "\<exists>c. snd y = s\<lparr>clock := c\<rparr>"
proof (rule wait_for_data.raw_induct
    [where P = "\<lambda>timeoutAt timedOut s y. \<exists>c. snd y = s\<lparr>clock := c\<rparr>", OF _ assms])
  fix wait :: "unsigned_long \<Rightarrow> bool \<Rightarrow> Lin_Interface \<Rightarrow> (bool \<times> Lin_Interface) option"
    and timeoutAt timedOut s y
  assume IH: "\<And>timeoutAt timedOut s y. wait timeoutAt timedOut s = Some y \<Longrightarrow>
                \<exists>c. snd y = s\<lparr>clock := c\<rparr>"
    and body: "(if \<not> HardwareSerial_available s \<and> \<not> timedOut
                then let timedOut = timeoutAt < millis s
                     in wait timeoutAt timedOut (if timedOut then s else s\<lparr>clock := clock s + 1\<rparr>)
                else Some (timedOut, s)) = Some y"
  show "\<exists>c. snd y = s\<lparr>clock := c\<rparr>"
  proof (cases "\<not> HardwareSerial_available s \<and> \<not> timedOut")
    case False
    with body have "snd y = s\<lparr>clock := clock s\<rparr>"
      by auto
    then show ?thesis
      by blast
  next
    case True
    let ?s = "if timeoutAt < millis s then s else s\<lparr>clock := clock s + 1\<rparr>"
    from body True have "wait timeoutAt (timeoutAt < millis s) ?s = Some y"
      by (simp add: Let_def)
    from IH [OF this] obtain c where "snd y = ?s\<lparr>clock := c\<rparr>"
      by blast
    then have "snd y = s\<lparr>clock := c\<rparr>"
      by (simp split: if_splits)
    then show ?thesis
      by blast
  qed
qed

lemma listenBus_received_result:
  assumes len: "length (LinMessage s1) = 13"
    and received: "receive_loop (- 4) 0x00 s1 = Inr (n, ProtectedID, s2)"
  shows "n \<le> 9 \<and> (\<exists>ChecksumValid s'.
           listenBus_received False timedOut s1 = Inr (ChecksumValid, s')
         \<and> LinMessageSize s' = (if n > 0 then word_of_int n else 0)
         \<and> LinMessageID s' = ProtectedID AND 0x3F
         \<and> (n \<le> 0 \<longrightarrow> \<not> ChecksumValid))"
proof -
  from receive_loop_total [of "- 4" "0x00" s1] received
  have n: "n \<le> 9" and len2: "length (LinMessage s2) = 13"
    using len by auto
  let ?s3 = "discard_rest s2"
  have len3: "length (LinMessage ?s3) = 13"
    using len2 by (simp add: discard_rest_fields)
  have sim: "simulated_frame False timedOut n ProtectedID s2 = Inr (timedOut, n, ProtectedID, s2)"
    by (simp add: simulated_frame_def)
  show ?thesis
  proof (cases "n > 0")
    case True
    then obtain valid where ver: "verify_received (LinMessage ?s3) ProtectedID n = Inr valid"
      using verify_received_total [OF len3, of n ProtectedID] n by auto
    let ?s4 = "?s3\<lparr>LinMessageSize := word_of_int n, LinMessageID := ProtectedID AND 0x3F\<rparr>"
    obtain out where rep: "listenBus_report timedOut n ProtectedID valid ?s4
                             = Inr (?s4\<lparr>console := console ?s4 @ out\<rparr>)"
      using listenBus_report_total [of n timedOut ProtectedID valid ?s4] n by auto
    have "listenBus_received False timedOut s1 = Inr (valid, ?s4\<lparr>console := console ?s4 @ out\<rparr>)"
      using True by (simp add: listenBus_received_def received sim ver rep Let_def)
    with True n show ?thesis
      by simp
  next
    case False
    let ?s4 = "?s3\<lparr>LinMessageSize := 0, LinMessageID := ProtectedID AND 0x3F\<rparr>"
    obtain out where rep: "listenBus_report timedOut n ProtectedID False ?s4
                             = Inr (?s4\<lparr>console := console ?s4 @ out\<rparr>)"
      using listenBus_report_total [of n timedOut ProtectedID False ?s4] n by auto
    have "listenBus_received False timedOut s1 = Inr (False, ?s4\<lparr>console := console ?s4 @ out\<rparr>)"
      using False by (simp add: listenBus_received_def received sim rep Let_def)
    moreover have "LinMessageSize (?s4\<lparr>console := console ?s4 @ out\<rparr>) = (if n > 0 then word_of_int n else 0)"
      using False by simp
    moreover have "LinMessageID (?s4\<lparr>console := console ?s4 @ out\<rparr>) = ProtectedID AND 0x3F"
      by simp
    ultimately show ?thesis
      using n by blast
  qed
qed

text \<open>
  C6, as the code has it. When the polling loop has ended and the receive loop has
  stored n bytes after the ProtectedID, with n at least 1, then n is at most 9,
  \<open>listenBus\<close> returns, \<open>LinMessageSize\<close> is n, the checksum byte included, and
  \<open>LinMessageID\<close> is the ProtectedID masked with 0x3F.
\<close>

theorem listenBus_reported_size:
  assumes "length (LinMessage s) = 13"
    and "wait_for_data (millis s + 500) False (HardwareSerial_flush s) = Some (timedOut, s1)"
    and "receive_loop (- 4) 0x00 s1 = Inr (n, ProtectedID, s2)"
    and "1 \<le> n"
  shows "n \<le> 9 \<and> (\<exists>ChecksumValid s'.
           listenBus False s = Some (Inr (ChecksumValid, s'))
         \<and> uint (LinMessageSize s') = n
         \<and> LinMessageID s' = ProtectedID AND 0x3F)"
proof -
  from wait_for_data_clock [OF assms(2)] obtain c where "s1 = (HardwareSerial_flush s)\<lparr>clock := c\<rparr>"
    by auto
  then have len: "length (LinMessage s1) = 13"
    using assms(1) by (simp add: HardwareSerial_flush_def)
  from listenBus_received_result [OF len assms(3), of timedOut]
  obtain ChecksumValid s' where n: "n \<le> 9"
    and run: "listenBus_received False timedOut s1 = Inr (ChecksumValid, s')"
    and size: "LinMessageSize s' = (if n > 0 then word_of_int n else 0)"
    and ident: "LinMessageID s' = ProtectedID AND 0x3F"
    by blast
  have "0 \<le> n" "n < 2 ^ LENGTH(8)"
    using assms(4) n by simp_all
  then have "take_bit LENGTH(8) n = n"
    by (rule take_bit_int_eq_self)
  then have "uint (word_of_int n :: uint8_t) = n"
    by (simp only: uint_word_of_int_eq)
  with size assms(4) have "uint (LinMessageSize s') = n"
    by simp
  moreover have "listenBus False s = Some (Inr (ChecksumValid, s'))"
    by (simp add: listenBus_def Let_def assms(2) run)
  ultimately show ?thesis
    using n ident by blast
qed

theorem listenBus_reported_size_witness:
  "length (LinMessage (Lin_Interface_new 0 [(0, 0x00), (0, 0x55), (0, 0xE2), (0, 0x1D)])) = 13
     \<and> (1 :: int) \<le> 1
     \<and> listenBus False (Lin_Interface_new 0 [(0, 0x00), (0, 0x55), (0, 0xE2), (0, 0x1D)])
         = Some (Inr (True,
             \<lparr>verboseMode = - 1, baud = 19200, rxPin = - 1, txPin = - 1,
              LinMessage = [0x1D, 0, 0, 0, 0, 0, 0, 0, 0, 0, 0, 0, 0],
              LinMessageID = 0x22, LinMessageSize = 1,
              calls = [Flush, Read, Read, Read, Read],
              rx = [], clock = 2, console = []\<rparr>))"
proof -
  let ?s = "Lin_Interface_new 0 [(0, 0x00), (0, 0x55), (0, 0xE2), (0, 0x1D)]"
  let ?s2 = "\<lparr>verboseMode = - 1, baud = 19200, rxPin = - 1, txPin = - 1,
              LinMessage = [0x1D, 0, 0, 0, 0, 0, 0, 0, 0, 0, 0, 0, 0],
              LinMessageID = 0, LinMessageSize = 0,
              calls = [Flush, Read, Read, Read, Read],
              rx = [], clock = 2, console = []\<rparr>"
  let ?r = "\<lparr>verboseMode = - 1, baud = 19200, rxPin = - 1, txPin = - 1,
              LinMessage = [0x1D, 0, 0, 0, 0, 0, 0, 0, 0, 0, 0, 0, 0],
              LinMessageID = 0x22, LinMessageSize = 1,
              calls = [Flush, Read, Read, Read, Read],
              rx = [], clock = 2, console = []\<rparr>"
  have len: "length (LinMessage ?s) = 13"
    by (simp add: Lin_Interface_new_def)
  have waited: "wait_for_data (millis ?s + 500) False (HardwareSerial_flush ?s)
                  = Some (False, HardwareSerial_flush ?s)"
    by code_simp
  have received: "receive_loop (- 4) 0x00 (HardwareSerial_flush ?s) = Inr (1, 0xE2, ?s2)"
    by code_simp
  have one: "(1 :: int) \<le> 1"
    by simp
  have run: "listenBus False ?s = Some (Inr (True, ?r))"
    by code_simp
  from listenBus_reported_size [OF len waited received one] run
  have "uint (LinMessageSize ?r) = 1 \<and> LinMessageID ?r = 0xE2 AND 0x3F"
    by auto
  with len one run show ?thesis
    by blast
qed

text \<open>
  C6 as stated fails: for a frame of eight data bytes and a checksum, nine bytes are
  stored after the ProtectedID and \<open>LinMessageSize\<close> is 9, not 8.
\<close>

theorem listenBus_size_counts_checksum:
  "receive_loop (- 4) 0x00 (HardwareSerial_flush (Lin_Interface_new 0
       (map (Pair 0) [0x00, 0x55, 0xE2, 0xAB, 0x84, 0x1E, 0xF4, 0x2E, 0x84, 0x7A, 0x55, 0x57])))
     = Inr (9, 0xE2,
         \<lparr>verboseMode = - 1, baud = 19200, rxPin = - 1, txPin = - 1,
          LinMessage = [0xAB, 0x84, 0x1E, 0xF4, 0x2E, 0x84, 0x7A, 0x55, 0x57, 0, 0, 0, 0],
          LinMessageID = 0, LinMessageSize = 0,
          calls = [Flush, Read, Read, Read, Read, Read, Read, Read, Read, Read, Read, Read, Read],
          rx = [], clock = 2, console = []\<rparr>)
   \<and> listenBus False (Lin_Interface_new 0
       (map (Pair 0) [0x00, 0x55, 0xE2, 0xAB, 0x84, 0x1E, 0xF4, 0x2E, 0x84, 0x7A, 0x55, 0x57]))
     = Some (Inr (True,
         \<lparr>verboseMode = - 1, baud = 19200, rxPin = - 1, txPin = - 1,
          LinMessage = [0xAB, 0x84, 0x1E, 0xF4, 0x2E, 0x84, 0x7A, 0x55, 0x57, 0, 0, 0, 0],
          LinMessageID = 0x22, LinMessageSize = 9,
          calls = [Flush, Read, Read, Read, Read, Read, Read, Read, Read, Read, Read, Read, Read],
          rx = [], clock = 2, console = []\<rparr>))"
  by code_simp

lemma timeout_reached:
  fixes now :: unsigned_long
  assumes "now + 500 \<noteq> - 1" and "\<not> now + 500 < now"
  shows "now + 500 < now + 501"
proof -
  from assms(2) have "now \<le> now + 500"
    by simp
  then have sum: "unat (now + 500) = unat now + unat (500 :: unsigned_long)"
    by (simp only: unat_plus_simple)
  have "unat (now + 500) < 2 ^ LENGTH(32)"
    by (rule unsigned_less)
  moreover have "unat (now + 500) \<noteq> 4294967295"
  proof
    assume "unat (now + 500) = 4294967295"
    then have "unat (now + 500) = unat (- 1 :: unsigned_long)"
      by (simp add: unsigned_minus_1_eq_mask mask_eq_exp_minus_1)
    then have "now + 500 = - 1"
      by (simp only: word_unat_eq_iff)
    with assms(1) show False
      by contradiction
  qed
  ultimately have "unat now + 501 < 2 ^ LENGTH(32)"
    using sum by simp
  then have "unat now + unat (501 :: unsigned_long) < 2 ^ LENGTH(32)"
    by simp
  then have "unat (now + 501) = unat now + unat (501 :: unsigned_long)"
    by (simp only: unat_add_lem)
  with sum show ?thesis
    by (simp add: word_less_nat_alt)
qed

text \<open>
  Away from the wrap-around of \<open>millis()\<close>, a call of \<open>listenBus\<close> during which no
  byte becomes available up to the last poll, 501 ms after the start, returns false and
  reports an empty frame.
\<close>

lemma listenBus_times_out:
  assumes "millis s + 500 \<noteq> - 1"
    and "rx s = [] \<or> clock s + 501 < fst (hd (rx s))"
  shows "\<exists>s'. listenBus False s = Some (Inr (False, s'))
              \<and> LinMessageSize s' = 0 \<and> LinMessageID s' = 0"
proof -
  let ?T = "millis s + 500"
  let ?f = "HardwareSerial_flush s"
  define P where "P j \<longleftrightarrow> ?T < (of_nat (clock ?f + j) :: unsigned_long)" for j
  have same: "clock ?f = clock s" "rx ?f = rx s" "LinMessage ?f = LinMessage s"
    by (simp_all add: HardwareSerial_flush_def)
  have "P 0 \<or> P 501"
  proof (cases "?T < millis s")
    case True
    then show ?thesis
      by (simp add: P_def same millis_def)
  next
    case False
    from timeout_reached [OF assms(1) False] show ?thesis
      by (simp add: P_def same millis_def)
  qed
  then obtain j where j: "P j" "j \<le> 501"
    by auto
  define d where "d = (LEAST j. P j)"
  have d: "P d"
    unfolding d_def using j(1) by (rule LeastI)
  have "d \<le> j"
    unfolding d_def using j(1) by (rule Least_le)
  with j(2) have d501: "d \<le> 501"
    by simp
  have before: "\<forall>i < d. \<not> P i"
    unfolding d_def using not_less_Least by blast
  have quiet: "rx ?f = [] \<or> clock ?f + d < fst (hd (rx ?f))"
    using assms(2) d501 by (auto simp add: same)
  let ?s1 = "?f\<lparr>clock := clock ?f + d\<rparr>"
  have waited: "wait_for_data ?T False ?f = Some (True, ?s1)"
    using before d quiet unfolding P_def by (rule wait_for_data_steps)
  have idle: "\<not> HardwareSerial_available ?s1"
    using quiet by (auto simp add: HardwareSerial_available_def split: list.splits)
  have [simp]: "length (LinMessage ?s1) = length (LinMessage s)"
    by (simp add: HardwareSerial_flush_def)
  have loop: "receive_loop (- 4) 0x00 ?s1 = Inr (- 4, 0x00, ?s1)"
    using idle by (rule receive_loop_idle)
  have sim: "simulated_frame False True (- 4) 0x00 ?s1 = Inr (True, - 4, 0x00, ?s1)"
    by (simp add: simulated_frame_def)
  have rest: "discard_rest ?s1 = ?s1"
    using idle by (rule discard_rest_idle)
  let ?s4 = "?s1\<lparr>LinMessageSize := 0, LinMessageID := 0\<rparr>"
  obtain out where rep: "listenBus_report True (- 4) 0x00 False ?s4
                           = Inr (?s4\<lparr>console := console ?s4 @ out\<rparr>)"
    using listenBus_report_total [of "- 4" True "0x00" False ?s4] by auto
  have "listenBus_received False True ?s1 = Inr (False, ?s4\<lparr>console := console ?s4 @ out\<rparr>)"
    by (simp add: listenBus_received_def loop sim rest rep Let_def)
  then have "listenBus False s = Some (Inr (False, ?s4\<lparr>console := console ?s4 @ out\<rparr>))"
    by (simp add: listenBus_def Let_def waited)
  then show ?thesis
    by simp
qed

lemma listenBus_no_timeout:
  assumes "millis s + 500 = - 1" and "rx s = []"
  shows "listenBus LINSIMULATION s = None"
proof -
  have "rx (HardwareSerial_flush s) = []"
    using assms(2) by (simp add: HardwareSerial_flush_def)
  then have "wait_for_data (- 1) False (HardwareSerial_flush s) = None"
    by (rule wait_for_data_rollover)
  then show ?thesis
    by (simp add: listenBus_def Let_def assms(1))
qed

lemma startTransmission_environment:
  "rx (HardwareSerial_flush (startTransmission ProtectedID s)) = rx s"
  "clock (HardwareSerial_flush (startTransmission ProtectedID s)) = clock s + 20"
  by (simp_all add: startTransmission_def setupSerial_def writeBreak_def transport_defs Let_def)

text \<open>
  The same for \<open>readFrame\<close>, which spends 20 ms in \<open>setupSerial\<close> before it
  listens.
\<close>

lemma readFrame_times_out:
  assumes "(of_nat (clock s + 20) :: unsigned_long) + 500 \<noteq> - 1"
    and "rx s = [] \<or> clock s + 521 < fst (hd (rx s))"
  shows "\<exists>s'. readFrame False FrameID s = Some (Inr (False, s')) \<and> LinMessageSize s' = 0"
proof -
  let ?s = "HardwareSerial_flush (startTransmission (getProtectedID FrameID) s)"
  have now: "millis ?s = of_nat (clock s + 20)"
    by (simp only: millis_def startTransmission_environment)
  have "millis ?s + 500 \<noteq> - 1"
    unfolding now using assms(1) .
  moreover have "rx ?s = [] \<or> clock ?s + 501 < fst (hd (rx ?s))"
    using assms(2) by (auto simp add: startTransmission_environment)
  ultimately obtain s' where "listenBus False ?s = Some (Inr (False, s'))" "LinMessageSize s' = 0"
    using listenBus_times_out [of ?s] by blast
  then have "readFrame False FrameID s = Some (Inr (False, delay 20 (HardwareSerial_end s')))"
    "LinMessageSize (delay 20 (HardwareSerial_end s')) = 0"
    by (simp_all add: readFrame_def Let_def delay_def HardwareSerial_end_def)
  then show ?thesis
    by blast
qed

lemma readFrame_no_timeout:
  assumes "(of_nat (clock s + 20) :: unsigned_long) + 500 = - 1" and "rx s = []"
  shows "readFrame LINSIMULATION FrameID s = None"
proof -
  let ?s = "HardwareSerial_flush (startTransmission (getProtectedID FrameID) s)"
  have now: "millis ?s = of_nat (clock s + 20)"
    by (simp only: millis_def startTransmission_environment)
  have "millis ?s + 500 = - 1"
    unfolding now using assms(1) .
  moreover have "rx ?s = []"
    using assms(2) by (simp add: startTransmission_environment)
  ultimately have "listenBus LINSIMULATION ?s = None"
    by (rule listenBus_no_timeout)
  then show ?thesis
    by (simp add: readFrame_def Let_def)
qed

text \<open>
  C7. The deadline is the absolute time \<open>timeoutAt = millis() + 500\<close> and the test is
  \<open>timeoutAt < millis()\<close>. When \<open>listenBus\<close> starts 501 ms before \<open>millis()\<close>
  wraps around, \<open>timeoutAt\<close> is 0xFFFFFFFF and the test is never true: if no byte
  arrives, the call does not return, and neither does a \<open>readFrame\<close> started 20 ms
  earlier.
\<close>

theorem listenBus_millis_rollover:
  "millis (Lin_Interface_new 4294966795 []) = 0xFFFFFE0B
     \<and> millis (Lin_Interface_new 4294966795 []) + 500 = 0xFFFFFFFF
     \<and> listenBus False (Lin_Interface_new 4294966795 []) = None
     \<and> readFrame False 0x22 (Lin_Interface_new 4294966775 []) = None"
proof -
  have "clock (Lin_Interface_new 4294966775 []) + 20 = 4294966795"
    by (simp add: Lin_Interface_new_def)
  then have "(of_nat (clock (Lin_Interface_new 4294966775 []) + 20) :: unsigned_long) + 500 = - 1"
    by (simp only: of_nat_numeral) simp
  moreover have "rx (Lin_Interface_new 4294966775 []) = []"
    by (simp add: Lin_Interface_new_def)
  ultimately have "readFrame False 0x22 (Lin_Interface_new 4294966775 []) = None"
    by (rule readFrame_no_timeout)
  moreover
  have "millis (Lin_Interface_new 4294966795 []) = 0xFFFFFE0B"
    by (simp add: millis_def Lin_Interface_new_def)
  moreover have "(0xFFFFFE0B :: unsigned_long) + 500 = - 1"
    by simp
  moreover have "rx (Lin_Interface_new 4294966795 []) = []"
    by (simp add: Lin_Interface_new_def)
  ultimately show ?thesis
    using listenBus_no_timeout [of "Lin_Interface_new 4294966795 []" False] by simp
qed

end
